theory Spec2Isabelle
  imports Main "HOL-Library.Word" "HOL-Library.AList"
begin

section \<open>Bytes and native-width fields\<close>

text \<open>
  The serde subsystem of flua-ck writes Lua values into a growable byte buffer
  (\<^verbatim>\<open>serdebuf.c\<close>) and reads them back (\<^verbatim>\<open>serde.c\<close>).  Fixed-width fields are
  copied with \<^verbatim>\<open>memcpy\<close> in native byte order; the build targets are amd64, so a
  field of \<open>k\<close> bytes is the little-endian image of its value.  \<^verbatim>\<open>size_t\<close>,
  pointers, \<^verbatim>\<open>lua_Integer\<close> and \<^verbatim>\<open>lua_Number\<close> are 8 bytes, \<^verbatim>\<open>unsigned\<close> is 4 bytes,
  \<^verbatim>\<open>bool\<close> and \<^verbatim>\<open>serde_type_code\<close> are 1 byte.
\<close>

type_synonym byte = "8 word"
type_synonym addr = nat

fun le_bytes :: "nat \<Rightarrow> nat \<Rightarrow> byte list" where
  "le_bytes 0 n = []"
| "le_bytes (Suc k) n = word_of_nat (n mod 256) # le_bytes k (n div 256)"

fun le_nat :: "byte list \<Rightarrow> nat" where
  "le_nat [] = 0"
| "le_nat (b # bs) = unat b + 256 * le_nat bs"

definition SIZEOF_SIZE_T :: nat where "SIZEOF_SIZE_T = 8"
definition SIZEOF_UNSIGNED :: nat where "SIZEOF_UNSIGNED = 4"
definition SIZEOF_POINTER :: nat where "SIZEOF_POINTER = 8"
definition SIZEOF_LUA_INTEGER :: nat where "SIZEOF_LUA_INTEGER = 8"
definition SIZEOF_LUA_NUMBER :: nat where "SIZEOF_LUA_NUMBER = 8"
definition SIZEOF_BOOL :: nat where "SIZEOF_BOOL = 1"
definition SIZEOF_TYPE_CODE :: nat where "SIZEOF_TYPE_CODE = 1"

text \<open>
  The two size thresholds come from \<^verbatim>\<open>ck_md.h\<close> of Concurrency Kit, which is not
  part of the repository.  Modelled from the spec: "a large size threshold (about
  one page)" and "a medium threshold (about one cache line)"; the amd64 values are
  used.
\<close>

definition CK_MD_CACHELINE :: nat where "CK_MD_CACHELINE = 64"
definition CK_MD_PAGESIZE :: nat where "CK_MD_PAGESIZE = 4096"

section \<open>Errors\<close>

text \<open>
  The C functions return \<^verbatim>\<open>errno\<close> values, a negative number when a Lua error object
  has been left on the Lua stack, or do not return at all (a failed \<^verbatim>\<open>assert\<close>).
  An access outside the block a pointer belongs to is undefined behaviour in C; the
  model names it as a result of its own so that its absence can be proved.
\<close>

datatype error = EPERM | EINVAL | ENOMEM | EOVERFLOW | LUA_ERRRUN | ASSERT_FAILED | OUT_OF_BOUNDS

section \<open>Lua values\<close>

text \<open>
  The values of one Lua state, as far as the serde code looks at them.  Numbers
  carry their 64-bit image (a \<^verbatim>\<open>lua_Integer\<close>, or the bits of a \<^verbatim>\<open>lua_Number\<close>).
  Tables, full userdata, threads and closures are objects with an identity; a table
  or userdata also carries what \<^verbatim>\<open>luaL_getmetafield\<close> finds in its metatable under
  \<^verbatim>\<open>"serialize"\<close> and \<^verbatim>\<open>"deserialize"\<close> (\<open>LNil\<close> when absent).  A C function
  without upvalues is a light C function (\<^verbatim>\<open>lua_pushcfunction\<close>); a C closure has its
  upvalues; a Lua closure has the chunks \<^verbatim>\<open>lua_dump\<close> hands to its writer (with
  \<^verbatim>\<open>strip\<close> set) and its upvalues with the names \<^verbatim>\<open>lua_getupvalue\<close> reports.
  \<open>LSerde\<close> is the table \<^verbatim>\<open>{serialize=..., deserialize=..., __index=self}\<close> the serde
  code builds, \<open>LCache\<close> the table it keeps in the registry of the state (its
  content is a field of the state below), \<open>LStream\<close> the \<^verbatim>\<open>luaL_Stream\<close> userdata of
  \<^verbatim>\<open>newstream\<close> over a span of bytes.
\<close>

datatype lua_value =
    LNil
  | LBoolean bool
  | LLightUserdata "64 word"
  | LInteger "64 word"
  | LNumber "64 word"
  | LString "byte list"
  | LTable nat lua_value lua_value
  | LUserdata nat lua_value lua_value
  | LThread nat
  | LCFunction "64 word"
  | LCClosure nat "64 word" "lua_value list"
  | LLClosure nat "byte list list" "(string \<times> lua_value) list"
  | LSerde lua_value lua_value
  | LCache
  | LStream "byte list"

datatype lua_type =
    LUA_TNIL | LUA_TBOOLEAN | LUA_TLIGHTUSERDATA | LUA_TNUMBER | LUA_TSTRING
  | LUA_TTABLE | LUA_TFUNCTION | LUA_TUSERDATA | LUA_TTHREAD

fun lua_type_of :: "lua_value \<Rightarrow> lua_type" where
  "lua_type_of LNil = LUA_TNIL"
| "lua_type_of (LBoolean _) = LUA_TBOOLEAN"
| "lua_type_of (LLightUserdata _) = LUA_TLIGHTUSERDATA"
| "lua_type_of (LInteger _) = LUA_TNUMBER"
| "lua_type_of (LNumber _) = LUA_TNUMBER"
| "lua_type_of (LString _) = LUA_TSTRING"
| "lua_type_of (LTable _ _ _) = LUA_TTABLE"
| "lua_type_of (LUserdata _ _ _) = LUA_TUSERDATA"
| "lua_type_of (LThread _) = LUA_TTHREAD"
| "lua_type_of (LCFunction _) = LUA_TFUNCTION"
| "lua_type_of (LCClosure _ _ _) = LUA_TFUNCTION"
| "lua_type_of (LLClosure _ _ _) = LUA_TFUNCTION"
| "lua_type_of (LSerde _ _) = LUA_TTABLE"
| "lua_type_of LCache = LUA_TTABLE"
| "lua_type_of (LStream _) = LUA_TUSERDATA"

fun lua_isinteger :: "lua_value \<Rightarrow> bool" where
  "lua_isinteger (LInteger _) = True"
| "lua_isinteger _ = False"

fun lua_iscfunction :: "lua_value \<Rightarrow> bool" where
  "lua_iscfunction (LCFunction _) = True"
| "lua_iscfunction (LCClosure _ _ _) = True"
| "lua_iscfunction _ = False"

fun lua_toboolean :: "lua_value \<Rightarrow> bool" where
  "lua_toboolean LNil = False"
| "lua_toboolean (LBoolean b) = b"
| "lua_toboolean _ = True"

text \<open>
  The accessors below are applied by the encoder to a value whose tag was computed
  from that same value, so only their first equations are ever used; the last one
  returns 0 where the Lua API would convert or return \<^verbatim>\<open>NULL\<close>.
\<close>

fun lua_touserdata :: "lua_value \<Rightarrow> 64 word" where
  "lua_touserdata (LLightUserdata p) = p"
| "lua_touserdata _ = 0"

fun lua_tonumber :: "lua_value \<Rightarrow> 64 word" where
  "lua_tonumber (LNumber x) = x"
| "lua_tonumber _ = 0"

fun lua_tointeger :: "lua_value \<Rightarrow> 64 word" where
  "lua_tointeger (LInteger x) = x"
| "lua_tointeger _ = 0"

fun lua_tolstring :: "lua_value \<Rightarrow> byte list" where
  "lua_tolstring (LString s) = s"
| "lua_tolstring _ = []"

fun lua_tocfunction :: "lua_value \<Rightarrow> 64 word" where
  "lua_tocfunction (LCFunction f) = f"
| "lua_tocfunction (LCClosure _ f _) = f"
| "lua_tocfunction _ = 0"

text \<open>
  \<^verbatim>\<open>lua_getupvalue(L, idx, i)\<close> for \<open>i = 1, 2, ...\<close> until it returns \<^verbatim>\<open>NULL\<close>: the
  upvalues of a closure with their names.  The name of every upvalue of a C closure
  is the empty string.
\<close>

fun lua_getupvalues :: "lua_value \<Rightarrow> (string \<times> lua_value) list" where
  "lua_getupvalues (LLClosure _ _ ups) = ups"
| "lua_getupvalues (LCClosure _ _ ups) = map (\<lambda>v. ([], v)) ups"
| "lua_getupvalues _ = []"

text \<open>
  \<^verbatim>\<open>lua_dump\<close> with \<^verbatim>\<open>strip\<close> set: the chunks handed to the writer, or status 1 when
  the value is not a Lua function.
\<close>

fun lua_dump :: "lua_value \<Rightarrow> byte list list option" where
  "lua_dump (LLClosure _ chunks _) = Some chunks"
| "lua_dump _ = None"

text \<open>
  \<^verbatim>\<open>lua_rawequal\<close>: objects by identity, light C functions by their pointer, the
  other values by their content (for numbers: by their image, which leaves out that
  Lua equates an integer with the float of the same value).
\<close>

fun lua_rawequal :: "lua_value \<Rightarrow> lua_value \<Rightarrow> bool" where
  "lua_rawequal (LTable i _ _) b = (case b of LTable j _ _ \<Rightarrow> i = j | _ \<Rightarrow> False)"
| "lua_rawequal (LUserdata i _ _) b = (case b of LUserdata j _ _ \<Rightarrow> i = j | _ \<Rightarrow> False)"
| "lua_rawequal (LThread i) b = (case b of LThread j \<Rightarrow> i = j | _ \<Rightarrow> False)"
| "lua_rawequal (LCFunction f) b = (case b of LCFunction g \<Rightarrow> f = g | _ \<Rightarrow> False)"
| "lua_rawequal (LCClosure i _ _) b = (case b of LCClosure j _ _ \<Rightarrow> i = j | _ \<Rightarrow> False)"
| "lua_rawequal (LLClosure i _ _) b = (case b of LLClosure j _ _ \<Rightarrow> i = j | _ \<Rightarrow> False)"
| "lua_rawequal LNil b = (b = LNil)"
| "lua_rawequal (LBoolean x) b = (b = LBoolean x)"
| "lua_rawequal (LLightUserdata x) b = (b = LLightUserdata x)"
| "lua_rawequal (LInteger x) b = (b = LInteger x)"
| "lua_rawequal (LNumber x) b = (b = LNumber x)"
| "lua_rawequal (LString x) b = (b = LString x)"
| "lua_rawequal (LSerde _ _) b = False"
| "lua_rawequal LCache b = (b = LCache)"
| "lua_rawequal (LStream _) b = False"

fun luaL_getmetafield :: "lua_value \<Rightarrow> string \<Rightarrow> lua_value" where
  "luaL_getmetafield (LTable _ s d) name =
     (if name = ''serialize'' then s else if name = ''deserialize'' then d else LNil)"
| "luaL_getmetafield (LUserdata _ s d) name =
     (if name = ''serialize'' then s else if name = ''deserialize'' then d else LNil)"
| "luaL_getmetafield _ name = LNil"

text \<open>
  \<^verbatim>\<open>lua_setmetatable\<close> with a serde table on top: a table or full userdata gets the
  metatable; for any other value Lua sets the metatable shared by its type, which
  leaves the value as it is.
\<close>

fun lua_setmetatable :: "lua_value \<Rightarrow> lua_value \<Rightarrow> lua_value \<Rightarrow> lua_value" where
  "lua_setmetatable (LTable i _ _) ser de = LTable i ser de"
| "lua_setmetatable (LUserdata i _ _) ser de = LUserdata i ser de"
| "lua_setmetatable v ser de = v"

section \<open>The host: everything outside the repository\<close>

text \<open>
  The allocator (\<^verbatim>\<open>mallocx\<close>, \<^verbatim>\<open>rallocx\<close>, \<^verbatim>\<open>malloc\<close>) decides where blocks live and
  whether a request succeeds; address 0 is \<^verbatim>\<open>NULL\<close>.  \<^verbatim>\<open>rallocx\<close> may move a block, and
  then keeps its contents.

  A user \<^verbatim>\<open>serialize\<close> function is Lua code that writes to the stream it is given,
  reacts to the outcome of each write, and returns or raises: a \<open>ser_prog\<close>
  (\<open>Write bs ok failed\<close> continues with \<open>ok\<close> when the write succeeded).  A user
  \<^verbatim>\<open>deserialize\<close> function called under \<^verbatim>\<open>lua_pcall\<close> on a stream over a span of
  bytes gives an error object or one value.  \<^verbatim>\<open>luaL_loadbufferx\<close> in mode \<^verbatim>\<open>"b"\<close>
  rejects a blob with an error object or gives a function: the chunks it would dump
  as and the names of its upvalues.  \<open>ht_put_ok\<close> says whether Concurrency Kit's hash
  table finds the memory to insert a key.  \<open>junk\<close> and \<open>junk_env\<close> are the contents
  of locals that are read before they are assigned.
\<close>

datatype ser_prog = Done | Raise | Write "byte list" ser_prog ser_prog

record host =
  mallocx :: "nat \<Rightarrow> nat \<Rightarrow> addr"
  rallocx :: "addr \<Rightarrow> nat \<Rightarrow> nat \<Rightarrow> addr"
  malloc_ok :: bool
  fwopen_ok :: bool
  fmemopen_ok :: "nat \<Rightarrow> bool"
  ht_put_ok :: "byte list \<Rightarrow> bool"
  ser_run :: "lua_value \<Rightarrow> lua_value \<Rightarrow> ser_prog"
  de_run :: "lua_value \<Rightarrow> byte list \<Rightarrow> lua_value + lua_value"
  undump :: "byte list \<Rightarrow> lua_value + (byte list list \<times> string list)"
  junk :: nat
  junk_env :: bool

section \<open>The buffer (\<^verbatim>\<open>struct serdebuf\<close>)\<close>

text \<open>
  \<^verbatim>\<open>struct serdebuf { void *buf; void *cur; size_t cap; }\<close>.  The model keeps the base
  address \<open>buf\<close>, the capacity, and the bytes written so far, \<open>used\<close>, which are the
  contents of the block between \<^verbatim>\<open>buf\<close> and \<^verbatim>\<open>cur\<close>; \<^verbatim>\<open>cur\<close> is \<open>buf\<close> plus their number.
\<close>

record serdebuf =
  buf :: addr
  used :: "byte list"
  cap :: nat

definition cur :: "serdebuf \<Rightarrow> addr" where
  "cur sb = buf sb + length (used sb)"

definition serdebuf_size :: "serdebuf \<Rightarrow> nat" where
  "serdebuf_size sb = cur sb - buf sb"

text \<open>\<^verbatim>\<open>serdebuf_flags\<close>: the alignment requested from the allocator (0: none).\<close>

definition serdebuf_flags :: "nat \<Rightarrow> nat" where
  "serdebuf_flags sz =
     (if sz \<ge> CK_MD_PAGESIZE then CK_MD_PAGESIZE
      else if sz \<ge> CK_MD_CACHELINE then CK_MD_CACHELINE
      else 0)"

text \<open>\<^verbatim>\<open>roundup2(x, y)\<close> of \<^verbatim>\<open>sys/param.h\<close>, for a power of two \<open>y\<close>.\<close>

definition roundup2 :: "nat \<Rightarrow> nat \<Rightarrow> nat" where
  "roundup2 x y = ((x + (y - 1)) div y) * y"

definition serdebuf_roundup :: "nat \<Rightarrow> nat" where
  "serdebuf_roundup sz =
     (if sz \<ge> CK_MD_PAGESIZE then roundup2 sz CK_MD_PAGESIZE
      else roundup2 sz CK_MD_CACHELINE)"

text \<open>
  \<^verbatim>\<open>serdebuf_resize\<close>: the block is reallocated to the rounded size; on success the
  base may have moved, the bytes written so far are kept and \<^verbatim>\<open>cur\<close> is recomputed
  from the saved offset.
\<close>

definition serdebuf_resize :: "host \<Rightarrow> serdebuf \<Rightarrow> nat \<Rightarrow> error + serdebuf" where
  "serdebuf_resize A sb minimum =
     (let sz = serdebuf_roundup minimum;
          p = rallocx A (buf sb) sz (serdebuf_flags sz)
      in if p = 0 then Inl ENOMEM
         else Inr (sb\<lparr>buf := p, cap := sz\<rparr>))"

definition mempcpy :: "serdebuf \<Rightarrow> byte list \<Rightarrow> serdebuf" where
  "mempcpy sb p = sb\<lparr>used := used sb @ p\<rparr>"

definition serdebuf_append :: "host \<Rightarrow> serdebuf \<Rightarrow> byte list \<Rightarrow> error + serdebuf" where
  "serdebuf_append A sb p =
     (let needed = serdebuf_size sb + length p
      in if needed > cap sb then
           (let newsize = 2 * cap sb;
                newsize = (if newsize < needed then needed else newsize)
            in case serdebuf_resize A sb newsize of
                 Inl e \<Rightarrow> Inl e
               | Inr sb' \<Rightarrow> Inr (mempcpy sb' p))
         else Inr (mempcpy sb p))"

text \<open>
  A store of \<open>bs\<close> through a pointer \<open>a\<close> into the block of the buffer, as the
  backpatches \<^verbatim>\<open>*countp = ...\<close> and \<^verbatim>\<open>*sizep = ...\<close> do.  The pointer is an address; the
  store hits the written part of the current block or is out of bounds.
\<close>

definition store_at :: "serdebuf \<Rightarrow> addr \<Rightarrow> byte list \<Rightarrow> error + serdebuf" where
  "store_at sb a bs =
     (if buf sb \<le> a \<and> a + length bs \<le> cur sb then
        (let off = a - buf sb
         in Inr (sb\<lparr>used := take off (used sb) @ bs @ drop (off + length bs) (used sb)\<rparr>))
      else Inl OUT_OF_BOUNDS)"

section \<open>Wire type tags (\<^verbatim>\<open>enum serde_type\<close>, \<^verbatim>\<open>serde_type_code\<close>)\<close>

text \<open>
  \<^verbatim>\<open>typedef int8_t serde_type_code\<close>: a tag is one byte, read as a signed number.
  \<^verbatim>\<open>SERDE_INVALID\<close> is -1 and \<^verbatim>\<open>SERDE_ANY\<close> is -2.
\<close>

type_synonym serde_type_code = "8 word"

definition SERDE_ENV :: serde_type_code where "SERDE_ENV = 0"
definition SERDE_NIL :: serde_type_code where "SERDE_NIL = 1"
definition SERDE_BOOLEAN :: serde_type_code where "SERDE_BOOLEAN = 2"
definition SERDE_LIGHTUSERDATA :: serde_type_code where "SERDE_LIGHTUSERDATA = 3"
definition SERDE_INTEGER :: serde_type_code where "SERDE_INTEGER = 4"
definition SERDE_NUMBER :: serde_type_code where "SERDE_NUMBER = 5"
definition SERDE_STRING :: serde_type_code where "SERDE_STRING = 6"
definition SERDE_CCLOSURE :: serde_type_code where "SERDE_CCLOSURE = 7"
definition SERDE_LCLOSURE :: serde_type_code where "SERDE_LCLOSURE = 8"
definition SERDE_CUSTOM :: serde_type_code where "SERDE_CUSTOM = 9"
definition SERDE_INVALID :: serde_type_code where "SERDE_INVALID = - 1"
definition SERDE_ANY :: serde_type_code where "SERDE_ANY = - 2"

lemmas serde_codes =
  SERDE_ENV_def SERDE_NIL_def SERDE_BOOLEAN_def SERDE_LIGHTUSERDATA_def SERDE_INTEGER_def
  SERDE_NUMBER_def SERDE_STRING_def SERDE_CCLOSURE_def SERDE_LCLOSURE_def SERDE_CUSTOM_def
  SERDE_INVALID_def SERDE_ANY_def

text \<open>
  \<^verbatim>\<open>SERDE_TYPE_CODE_MAX\<close> is \<^verbatim>\<open>(1 << (sizeof(serde_type_code) * NBBY)) - 1\<close> and the
  slot array \<^verbatim>\<open>serde_cache\<close> has \<^verbatim>\<open>SERDE_TYPE_CODE_MAX + 1\<close> entries.
\<close>

definition SERDE_TYPE_CODE_MAX :: nat where
  "SERDE_TYPE_CODE_MAX = 2 ^ (SIZEOF_TYPE_CODE * 8) - 1"

definition SERDE_CACHE_CAPACITY :: nat where
  "SERDE_CACHE_CAPACITY = SERDE_TYPE_CODE_MAX + 1"

definition UINT16_MAX :: nat where "UINT16_MAX = 65535"

definition getserdemethods :: "lua_value \<Rightarrow> (lua_value \<times> lua_value) option" where
  "getserdemethods v =
     (if luaL_getmetafield v ''serialize'' \<noteq> LNil \<and> luaL_getmetafield v ''deserialize'' \<noteq> LNil
      then Some (luaL_getmetafield v ''serialize'', luaL_getmetafield v ''deserialize'')
      else None)"

definition serde_type :: "lua_value \<Rightarrow> serde_type_code" where
  "serde_type v =
     (case lua_type_of v of
        LUA_TNIL \<Rightarrow> SERDE_NIL
      | LUA_TBOOLEAN \<Rightarrow> SERDE_BOOLEAN
      | LUA_TLIGHTUSERDATA \<Rightarrow> SERDE_LIGHTUSERDATA
      | LUA_TNUMBER \<Rightarrow> (if lua_isinteger v then SERDE_INTEGER else SERDE_NUMBER)
      | LUA_TSTRING \<Rightarrow> SERDE_STRING
      | LUA_TTABLE \<Rightarrow> (if getserdemethods v = None then SERDE_INVALID else SERDE_CUSTOM)
      | LUA_TUSERDATA \<Rightarrow> (if getserdemethods v = None then SERDE_INVALID else SERDE_CUSTOM)
      | LUA_TFUNCTION \<Rightarrow> (if lua_iscfunction v then SERDE_CCLOSURE else SERDE_LCLOSURE)
      | LUA_TTHREAD \<Rightarrow> SERDE_INVALID)"

text \<open>The table \<^verbatim>\<open>serde_type_size\<close>, read at a valid tag only.\<close>

definition serde_type_size :: "serde_type_code \<Rightarrow> nat" where
  "serde_type_size t =
     (if t = SERDE_BOOLEAN then SIZEOF_BOOL
      else if t = SERDE_LIGHTUSERDATA then SIZEOF_POINTER
      else if t = SERDE_INTEGER then SIZEOF_LUA_INTEGER
      else if t = SERDE_NUMBER then SIZEOF_LUA_NUMBER
      else if t = SERDE_STRING then SIZEOF_SIZE_T
      else if t = SERDE_CCLOSURE then CK_MD_CACHELINE
      else if t = SERDE_LCLOSURE then CK_MD_PAGESIZE
      else if t = SERDE_CUSTOM then CK_MD_CACHELINE
      else 0)"

section \<open>The process-wide cache and one Lua state\<close>

text \<open>
  \<open>serde_cache\<close> is the memory at and after the static array
  \<^verbatim>\<open>void *serde_cache[SERDE_CACHE_CAPACITY]\<close>, by index: \<open>Some bs\<close> is a pointer to a
  finalized buffer holding \<open>bs\<close>, and \<open>None\<close> an entry with no such buffer behind it:
  \<^verbatim>\<open>NULL\<close>, or the pointer that a failed insertion leaves in the slot after it has
  freed the buffer.  Reading through such an entry is a memory error.  Only the indices
  below \<open>SERDE_CACHE_CAPACITY\<close> belong to the array.  \<open>serde_cache_types\<close> is the hash
  table from keys to slot indices.  \<open>registry\<close> is the table kept under
  \<^verbatim>\<open>registry[serde_cache]\<close> of the Lua state, from type codes to the \<^verbatim>\<open>serialize\<close> and
  \<^verbatim>\<open>deserialize\<close> fields of a serde table, in the order \<^verbatim>\<open>lua_next\<close> visits it.
  \<open>live\<close> counts the blocks obtained from \<^verbatim>\<open>mallocx\<close> and not yet freed.  \<open>stack\<close> is
  the Lua stack, bottom first, \<open>globals\<close> the table of globals of the state, and
  \<open>next_id\<close> the identity of the next object it creates.
\<close>

record world =
  serde_cache :: "nat \<Rightarrow> byte list option"
  serde_cache_len :: nat
  serde_cache_types :: "byte list \<Rightarrow> nat option"
  registry :: "(serde_type_code \<times> lua_value \<times> lua_value) list"
  live :: nat
  stack :: "lua_value list"
  globals :: lua_value
  next_id :: nat

definition free_block :: "world \<Rightarrow> addr \<Rightarrow> world" where
  "free_block w p = (if p = 0 then w else w\<lparr>live := live w - 1\<rparr>)"

definition serdebuf_init :: "host \<Rightarrow> world \<Rightarrow> lua_value \<Rightarrow> (error + serdebuf) \<times> world" where
  "serdebuf_init H w v =
     (let type = serde_type v
      in if type = SERDE_INVALID then (Inl EINVAL, w)
         else
           (let sz = SIZEOF_TYPE_CODE + serde_type_size type;
                sz = (if type = SERDE_STRING then sz + length (lua_tolstring v) else sz);
                p = mallocx H sz (serdebuf_flags sz)
            in if p = 0 then (Inl ENOMEM, w)
               else (Inr \<lparr>buf = p, used = [], cap = sz\<rparr>, w\<lparr>live := live w + 1\<rparr>)))"

text \<open>
  \<^verbatim>\<open>serdebuf_finalize\<close> clears the struct and shrinks the block to the used size; the
  result is the new pointer (\<^verbatim>\<open>NULL\<close> when \<^verbatim>\<open>rallocx\<close> fails, and then the block stays
  allocated), the length, and the bytes the block holds.
\<close>

definition serdebuf_finalize :: "host \<Rightarrow> serdebuf \<Rightarrow> addr \<times> nat \<times> byte list" where
  "serdebuf_finalize H sb =
     (let p = buf sb; sz = serdebuf_size sb
      in (rallocx H p sz (serdebuf_flags sz), sz, used sb))"

definition serdebuf_destroy :: "world \<Rightarrow> serdebuf \<Rightarrow> world" where
  "serdebuf_destroy w sb = free_block w (buf sb)"

section \<open>The encoder (\<^verbatim>\<open>serdebuf.c\<close>)\<close>

text \<open>The bytes of a local that is appended before it is assigned.\<close>

definition placeholder :: "host \<Rightarrow> nat \<Rightarrow> byte list" where
  "placeholder H k = le_bytes k (junk H)"

text \<open>\<^verbatim>\<open>lua_dump\<close> calling \<^verbatim>\<open>serdebuf_writer\<close> chunk by chunk, stopping at the first error.\<close>

fun dump_writes :: "host \<Rightarrow> serdebuf \<Rightarrow> byte list list \<Rightarrow> error + serdebuf" where
  "dump_writes H sb [] = Inr sb"
| "dump_writes H sb (c # cs) =
     (case serdebuf_append H sb c of
        Inl e \<Rightarrow> Inl e
      | Inr sb' \<Rightarrow> dump_writes H sb' cs)"

definition serdebuf_dump :: "host \<Rightarrow> lua_value \<Rightarrow> serdebuf \<Rightarrow> error + serdebuf" where
  "serdebuf_dump H v sb =
     (case serdebuf_append H sb (placeholder H SIZEOF_SIZE_T) of
        Inl e \<Rightarrow> Inl e
      | Inr sb1 \<Rightarrow>
          (let start = serdebuf_size sb1
           in case lua_dump v of
                None \<Rightarrow> Inl EPERM
              | Some chunks \<Rightarrow>
                  (case dump_writes H sb1 chunks of
                     Inl e \<Rightarrow> Inl e
                   | Inr sb2 \<Rightarrow>
                       store_at sb2 (buf sb2 + start - SIZEOF_SIZE_T)
                         (le_bytes SIZEOF_SIZE_T (serdebuf_size sb2 - start)))))"

text \<open>
  The user function writing through \<^verbatim>\<open>serdebuf_writefn\<close>: a failed append makes the
  write fail and the function goes on as it chooses.  The result says whether it
  returned (\<open>True\<close>) or raised.
\<close>

fun run_writes :: "host \<Rightarrow> serdebuf \<Rightarrow> ser_prog \<Rightarrow> serdebuf \<times> bool" where
  "run_writes H sb Done = (sb, True)"
| "run_writes H sb Raise = (sb, False)"
| "run_writes H sb (Write bs ok failed) =
     (case serdebuf_append H sb bs of
        Inr sb' \<Rightarrow> run_writes H sb' ok
      | Inl e \<Rightarrow> run_writes H sb failed)"

text \<open>
  \<^verbatim>\<open>serdebuf_serialize_custom\<close>; \<open>ser\<close> is the function \<^verbatim>\<open>cache_serde\<close> left on top of
  the Lua stack.
\<close>

definition serdebuf_serialize_custom ::
    "host \<Rightarrow> lua_value \<Rightarrow> lua_value \<Rightarrow> serdebuf \<Rightarrow> error + serdebuf" where
  "serdebuf_serialize_custom H ser v sb =
     (if lua_type_of ser \<noteq> LUA_TFUNCTION then Inl ASSERT_FAILED
      else case serdebuf_append H sb (placeholder H SIZEOF_SIZE_T) of
             Inl e \<Rightarrow> Inl e
           | Inr sb1 \<Rightarrow>
               (let start = serdebuf_size sb1
                in if \<not> fwopen_ok H then Inl ENOMEM
                   else case run_writes H sb1 (ser_run H ser v) of
                          (sb2, False) \<Rightarrow> Inl LUA_ERRRUN
                        | (sb2, True) \<Rightarrow>
                            store_at sb2 (buf sb2 + start - SIZEOF_SIZE_T)
                              (le_bytes SIZEOF_SIZE_T (serdebuf_size sb2 - start))))"

definition serde_type_encode :: "lua_value \<Rightarrow> serde_type_code \<Rightarrow> serde_type_code" where
  "serde_type_encode v t = (if t = SERDE_ANY then serde_type v else t)"

text \<open>The scan of the registry table in \<^verbatim>\<open>cache_serde\<close>: the first entry whose two
  functions are raw-equal to the pair.\<close>

fun registry_scan ::
    "(serde_type_code \<times> lua_value \<times> lua_value) list \<Rightarrow> lua_value \<Rightarrow> lua_value \<Rightarrow> serde_type_code option" where
  "registry_scan [] ser de = None"
| "registry_scan ((t, s, d) # rest) ser de =
     (let smatch = lua_rawequal ser s; dmatch = lua_rawequal de d
      in if smatch \<and> dmatch then Some t else registry_scan rest ser de)"

text \<open>
  The part of \<^verbatim>\<open>cache_serde\<close> after the pair has been encoded into \<open>sb\<close>: finalize,
  the key-length check, the lookup, the insertion under the spinlock with the
  second lookup after a failed insertion, and the entry made in the registry
  table.  The key is stored in the slot before the insertion is tried; when the
  insertion fails, the key is freed on both ways out and the slot keeps the
  pointer to it.
\<close>

text \<open>\<^verbatim>\<open>type = i + SERDE_CUSTOM\<close>, the sum converted to \<^verbatim>\<open>int8_t\<close>.\<close>

definition custom_type_code :: "nat \<Rightarrow> serde_type_code" where
  "custom_type_code i = word_of_nat (i + unat SERDE_CUSTOM)"

definition cache_serde_publish ::
    "host \<Rightarrow> world \<Rightarrow> lua_value \<Rightarrow> lua_value \<Rightarrow> serdebuf \<Rightarrow> (error + serde_type_code) \<times> world" where
  "cache_serde_publish H w ser de sb =
     (case serdebuf_finalize H sb of
        (serialized, len, key) \<Rightarrow>
          if serialized = 0 then (Inl ENOMEM, w)
          else if len > UINT16_MAX then (Inl EOVERFLOW, free_block w serialized)
          else
            (let success = (\<lambda>w' i.
                   (let type = custom_type_code i
                    in (Inr type, w'\<lparr>registry := AList.update type (ser, de) (registry w')\<rparr>)))
             in case serde_cache_types w key of
                  Some i \<Rightarrow> success (free_block w serialized) i
                | None \<Rightarrow>
                    (let i = serde_cache_len w;
                         w1 = w\<lparr>serde_cache := (serde_cache w)(i := Some key)\<rparr>
                     in if ht_put_ok H key then
                          success (w1\<lparr>serde_cache_types := (serde_cache_types w1)(key := Some i),
                                      serde_cache_len := serde_cache_len w1 + 1\<rparr>) i
                        else
                          (let w2 = free_block (w1\<lparr>serde_cache := (serde_cache w1)(i := None)\<rparr>)
                                      serialized
                           in case serde_cache_types w1 key of
                                Some j \<Rightarrow> success w2 j
                              | None \<Rightarrow> (Inl ENOMEM, w2)))))"

text \<open>
  \<^verbatim>\<open>serdebuf_serialize\<close>, \<^verbatim>\<open>serdebuf_serialize_upvalues\<close> with its loop over the
  upvalues (\<open>i\<close> is the loop counter, starting at 1), and \<^verbatim>\<open>cache_serde\<close>, which
  encodes the pair of functions with \<^verbatim>\<open>serdebuf_serialize\<close> again.  On an error the
  struct of the caller still owns its block.
\<close>

function (sequential)
  serdebuf_serialize ::
    "host \<Rightarrow> world \<Rightarrow> lua_value \<Rightarrow> serdebuf \<Rightarrow> serde_type_code \<Rightarrow>
       (error + serdebuf \<times> serde_type_code) \<times> world"
and serdebuf_serialize_upvalues ::
    "host \<Rightarrow> world \<Rightarrow> lua_value \<Rightarrow> serdebuf \<Rightarrow> (error + serdebuf) \<times> world"
and upvalues_loop ::
    "host \<Rightarrow> world \<Rightarrow> (string \<times> lua_value) list \<Rightarrow> serdebuf \<Rightarrow> nat \<Rightarrow>
       (error + serdebuf \<times> nat) \<times> world"
and cache_serde ::
    "host \<Rightarrow> world \<Rightarrow> lua_value \<Rightarrow> (error + serde_type_code) \<times> world"
where
  "serdebuf_serialize H w v sb t =
     (let type_offset = serdebuf_size sb;
          type = serde_type_encode v t
      in case serdebuf_append H sb [type] of
           Inl e \<Rightarrow> (Inl e, w)
         | Inr sb1 \<Rightarrow>
             if type = SERDE_ENV \<or> type = SERDE_NIL then (Inr (sb1, type), w)
             else if type = SERDE_BOOLEAN then
               (map_sum id (\<lambda>sb'. (sb', type))
                  (serdebuf_append H sb1 (le_bytes SIZEOF_BOOL (if lua_toboolean v then 1 else 0))), w)
             else if type = SERDE_LIGHTUSERDATA then
               (map_sum id (\<lambda>sb'. (sb', type))
                  (serdebuf_append H sb1 (le_bytes SIZEOF_POINTER (unat (lua_touserdata v)))), w)
             else if type = SERDE_NUMBER then
               (map_sum id (\<lambda>sb'. (sb', type))
                  (serdebuf_append H sb1 (le_bytes SIZEOF_LUA_NUMBER (unat (lua_tonumber v)))), w)
             else if type = SERDE_INTEGER then
               (map_sum id (\<lambda>sb'. (sb', type))
                  (serdebuf_append H sb1 (le_bytes SIZEOF_LUA_INTEGER (unat (lua_tointeger v)))), w)
             else if type = SERDE_STRING then
               (let value = lua_tolstring v
                in case serdebuf_append H sb1 (le_bytes SIZEOF_SIZE_T (length value)) of
                     Inl e \<Rightarrow> (Inl e, w)
                   | Inr sb2 \<Rightarrow>
                       (map_sum id (\<lambda>sb'. (sb', type)) (serdebuf_append H sb2 value), w))
             else if type = SERDE_LCLOSURE then
               (case serdebuf_serialize_upvalues H w v sb1 of
                  (Inl e, w1) \<Rightarrow> (Inl e, w1)
                | (Inr sb2, w1) \<Rightarrow>
                    (map_sum id (\<lambda>sb'. (sb', type)) (serdebuf_dump H v sb2), w1))
             else if type = SERDE_CCLOSURE then
               (let value = lua_tocfunction v
                in case serdebuf_serialize_upvalues H w v sb1 of
                     (Inl e, w1) \<Rightarrow> (Inl e, w1)
                   | (Inr sb2, w1) \<Rightarrow>
                       (map_sum id (\<lambda>sb'. (sb', type))
                          (serdebuf_append H sb2 (le_bytes SIZEOF_POINTER (unat value))), w1))
             else if type = SERDE_CUSTOM then
               (case cache_serde H w v of
                  (Inl e, w1) \<Rightarrow> (Inl e, w1)
                | (Inr code, w1) \<Rightarrow>
                    (case store_at sb1 (buf sb1 + type_offset) [code] of
                       Inl e \<Rightarrow> (Inl e, w1)
                     | Inr sb2 \<Rightarrow>
                         (map_sum id (\<lambda>sb'. (sb', code))
                            (serdebuf_serialize_custom H (luaL_getmetafield v ''serialize'') v sb2), w1)))
             else (Inl EINVAL, w))"
| "serdebuf_serialize_upvalues H w v sb =
     (let count_offset = serdebuf_size sb
      in case serdebuf_append H sb (placeholder H SIZEOF_UNSIGNED) of
           Inl e \<Rightarrow> (Inl e, w)
         | Inr sb1 \<Rightarrow>
             (case upvalues_loop H w (lua_getupvalues v) sb1 1 of
                (Inl e, w1) \<Rightarrow> (Inl e, w1)
              | (Inr (sb2, i), w1) \<Rightarrow>
                  (store_at sb2 (buf sb2 + count_offset) (le_bytes SIZEOF_UNSIGNED (i - 1)), w1)))"
| "upvalues_loop H w [] sb i = (Inr (sb, i), w)"
| "upvalues_loop H w ((name, val) # ups) sb i =
     (if name \<noteq> ''_ENV'' \<and> lua_type_of val \<in> {LUA_TFUNCTION, LUA_TTABLE, LUA_TUSERDATA, LUA_TTHREAD}
      then (Inl EINVAL, w)
      else
        (let type = (if name = ''_ENV'' then SERDE_ENV else SERDE_ANY)
         in case serdebuf_serialize H w val sb type of
              (Inl e, w1) \<Rightarrow> (Inl e, w1)
            | (Inr (sb1, _), w1) \<Rightarrow> upvalues_loop H w1 ups sb1 (i + 1)))"
| "cache_serde H w v =
     (case getserdemethods v of
        None \<Rightarrow> (Inl EINVAL, w)
      | Some (ser, de) \<Rightarrow>
          (case registry_scan (registry w) ser de of
             Some t \<Rightarrow> (Inr t, w)
           | None \<Rightarrow>
               (case serdebuf_init H w de of
                  (Inl e, w0) \<Rightarrow> (Inl e, w0)
                | (Inr sb, w0) \<Rightarrow>
                    (case serdebuf_serialize H w0 ser sb SERDE_ANY of
                       (Inl e, w1) \<Rightarrow> (Inl e, w1)
                     | (Inr (sb1, t1), w1) \<Rightarrow>
                         if t1 \<noteq> SERDE_LCLOSURE \<and> t1 \<noteq> SERDE_CCLOSURE then (Inl ASSERT_FAILED, w1)
                         else
                           (case serdebuf_serialize H w1 de sb1 SERDE_ANY of
                              (Inl e, w2) \<Rightarrow> (Inl e, w2)
                            | (Inr (sb2, t2), w2) \<Rightarrow>
                                if t2 \<noteq> SERDE_LCLOSURE \<and> t2 \<noteq> SERDE_CCLOSURE then (Inl ASSERT_FAILED, w2)
                                else cache_serde_publish H w2 ser de sb2)))))"
  by pat_completeness auto

termination
proof (relation "measure (\<lambda>x. case x of
          Inl (Inl (H, w, v, sb, t)) \<Rightarrow> 3 * size v + 2
        | Inl (Inr (H, w, v, sb)) \<Rightarrow> 3 * size v + 1
        | Inr (Inl (H, w, ups, sb, i)) \<Rightarrow> 3 * size_list (\<lambda>p. size (snd p)) ups
        | Inr (Inr (H, w, v)) \<Rightarrow> 3 * size v + 1)", goal_cases)
  case 1
  show ?case by simp
next
  case (2 H w v sb t)
  show ?case by simp
next
  case (3 H w v sb t)
  show ?case by simp
next
  case (4 H w v sb t)
  show ?case by simp
next
  case (5 H w v sb)
  have a: "size_list (\<lambda>p. size (snd p)) ups \<le> size_list (size_prod (\<lambda>x. 0) size) ups"
    for ups :: "(string \<times> lua_value) list"
    by (induction ups) auto
  have b: "size_list (\<lambda>p. size (snd p)) (map (\<lambda>v. ([], v)) xs) = size_list size xs"
    for xs :: "lua_value list"
    by (induction xs) auto
  have "size_list (\<lambda>p. size (snd p)) (lua_getupvalues v) \<le> size v"
  proof (cases v)
    case (LLClosure i chunks ups)
    then show ?thesis using a [of ups] by simp
  next
    case (LCClosure i f xs)
    have "size_list (\<lambda>p. size (snd p)) (lua_getupvalues v) = size_list size xs"
      unfolding LCClosure lua_getupvalues.simps by (rule b)
    then show ?thesis using LCClosure by simp
  qed simp_all
  then show ?case by simp
next
  case (6 H w name val ups sb i)
  show ?case by simp
next
  case (7 H w name val ups sb i)
  show ?case by simp
next
  case (8 H w v x2 ser de)
  then have "size ser < size v"
    by (cases v) (auto simp: getserdemethods_def split: if_splits)
  then show ?case by simp
next
  case (9 H w v x2 ser de)
  then have "size de < size v"
    by (cases v) (auto simp: getserdemethods_def split: if_splits)
  then show ?case by simp
qed

section \<open>Callers of the encoder\<close>

text \<open>
  \<^verbatim>\<open>serialize\<close> of \<^verbatim>\<open>shared.c\<close>: the buffer is destroyed when encoding fails and
  finalized into a block handed to the caller otherwise.  (The small
  \<^verbatim>\<open>struct serialized\<close> that wraps the pointer is not counted in \<open>live\<close>.)
\<close>

definition serialize :: "host \<Rightarrow> world \<Rightarrow> lua_value \<Rightarrow> (error + addr \<times> byte list) \<times> world" where
  "serialize H w v =
     (case serdebuf_init H w v of
        (Inl e, w0) \<Rightarrow> (Inl e, w0)
      | (Inr sb, w0) \<Rightarrow>
          (case serdebuf_serialize H w0 v sb SERDE_ANY of
             (Inl e, w1) \<Rightarrow> (Inl e, serdebuf_destroy w1 sb)
           | (Inr (sb1, _), w1) \<Rightarrow>
               if \<not> malloc_ok H then (Inl ENOMEM, serdebuf_destroy w1 sb1)
               else
                 (case serdebuf_finalize H sb1 of
                    (pointer, _, bytes) \<Rightarrow>
                      if pointer = 0 then (Inl ENOMEM, w1)
                      else (Inr (pointer, bytes), w1))))"

section \<open>The decoder (\<^verbatim>\<open>serde.c\<close>)\<close>

text \<open>
  The decoder is given a pointer and no length.  The model gives it the bytes from
  that pointer to the end of the block it points into; \<^verbatim>\<open>consume\<close> copies \<open>len\<close>
  bytes and advances, and reads outside the block when fewer are left.
\<close>

definition consume :: "byte list \<Rightarrow> nat \<Rightarrow> (byte list \<times> byte list) option" where
  "consume p len = (if len \<le> length p then Some (drop len p, take len p) else None)"

text \<open>
  A call of the decoder returns the advanced pointer (\<open>Next\<close>, with the Lua state
  and the flag behind \<^verbatim>\<open>envp\<close>), returns \<^verbatim>\<open>NULL\<close> (\<open>Null\<close>), reads memory it was not
  given (\<open>OutOfBounds\<close>: bytes behind the end of the block, or through an entry of
  the slot array that has no buffer behind it), or has not returned when the
  recursion depth allowed to it is used up.
\<close>

datatype load = Next world "byte list" bool | Null world | OutOfBounds | Diverged

definition ascii :: "string \<Rightarrow> byte list" where
  "ascii s = map (\<lambda>c. word_of_nat (of_char c)) s"

definition lua_push :: "world \<Rightarrow> lua_value \<Rightarrow> world" where
  "lua_push w v = w\<lparr>stack := stack w @ [v]\<rparr>"

definition lua_gettop :: "world \<Rightarrow> nat" where
  "lua_gettop w = length (stack w)"

text \<open>
  Stack operations of the Lua API, on the stack as a list; index 1 is the bottom.
  The list has room for every push.  The decoder never calls \<^verbatim>\<open>lua_checkstack\<close>, so
  in the program the room is what Lua gives a C function (\<^verbatim>\<open>LUA_MINSTACK\<close>, 20
  slots), and the model is of the calls that stay within it.
\<close>

definition lua_pushvalue :: "lua_value list \<Rightarrow> nat \<Rightarrow> lua_value list" where
  "lua_pushvalue st idx = st @ [if 1 \<le> idx \<and> idx \<le> length st then st ! (idx - 1) else LNil]"

text \<open>
  \<^verbatim>\<open>lua_setupvalue\<close> assigns the value on top of the stack to upvalue \<open>n\<close> of the
  closure at \<open>fidx\<close> and pops it; it "returns NULL (and pops nothing) when the index
  n is greater than the number of upvalues", and a light C function has none.
\<close>

fun set_upvalue :: "lua_value \<Rightarrow> nat \<Rightarrow> lua_value \<Rightarrow> lua_value option" where
  "set_upvalue (LLClosure i chunks ups) n x =
     (if 1 \<le> n \<and> n \<le> length ups
      then Some (LLClosure i chunks (ups[n - 1 := (fst (ups ! (n - 1)), x)])) else None)"
| "set_upvalue (LCClosure i f ups) n x =
     (if 1 \<le> n \<and> n \<le> length ups then Some (LCClosure i f (ups[n - 1 := x])) else None)"
| "set_upvalue _ n x = None"

definition lua_setupvalue :: "lua_value list \<Rightarrow> nat \<Rightarrow> nat \<Rightarrow> lua_value list" where
  "lua_setupvalue st fidx n =
     (if 1 \<le> fidx \<and> fidx \<le> length st then
        (case set_upvalue (st ! (fidx - 1)) n (last st) of
           None \<Rightarrow> st
         | Some f \<Rightarrow> (butlast st)[fidx - 1 := f])
      else st)"

definition lua_insert :: "lua_value list \<Rightarrow> nat \<Rightarrow> lua_value list" where
  "lua_insert st idx = take (idx - 1) (butlast st) @ [last st] @ drop (idx - 1) (butlast st)"

definition lua_settop :: "lua_value list \<Rightarrow> nat \<Rightarrow> lua_value list" where
  "lua_settop st n = (if n \<le> length st then take n st else st @ replicate (n - length st) LNil)"

text \<open>
  \<^verbatim>\<open>setupvalues\<close>: the loop
  \<^verbatim>\<open>for (idx = bottom, fidx = lua_gettop(L), n = 1; idx < fidx; n++)\<close>, then the
  closure is moved to \<open>bottom\<close> and the stack cut there.  Both callers have just
  pushed a function, which is what the \<^verbatim>\<open>assert\<close> at its start checks.
\<close>

function setupvalues_loop :: "lua_value list \<Rightarrow> nat \<Rightarrow> nat \<Rightarrow> nat \<Rightarrow> bool \<Rightarrow> lua_value list" where
  "setupvalues_loop st idx fidx n env =
     (if idx < fidx then
        (if n = 1 \<and> env then setupvalues_loop st idx fidx (n + 1) env
         else setupvalues_loop (lua_setupvalue (lua_pushvalue st idx) fidx n) (idx + 1) fidx (n + 1) env)
      else st)"
  by pat_completeness auto

termination
  by (relation "measures [\<lambda>(st, idx, fidx, n, env). fidx - idx, \<lambda>(st, idx, fidx, n, env). 2 - n]") auto

definition setupvalues :: "world \<Rightarrow> nat \<Rightarrow> bool \<Rightarrow> world" where
  "setupvalues w bottom env =
     (let st = setupvalues_loop (stack w) bottom (lua_gettop w) 1 env
      in w\<lparr>stack := lua_settop (lua_insert st bottom) bottom\<rparr>)"

text \<open>
  The upvalues of a function fresh from \<^verbatim>\<open>lua_load\<close>: "if the resulting function has
  upvalues, its first upvalue is set to the value of the global environment; other
  upvalues are initialized with nil".
\<close>

fun loaded_upvalues :: "lua_value \<Rightarrow> string list \<Rightarrow> (string \<times> lua_value) list" where
  "loaded_upvalues g [] = []"
| "loaded_upvalues g (name # names) = (name, g) # map (\<lambda>n. (n, LNil)) names"

definition loadclosure :: "host \<Rightarrow> world \<Rightarrow> byte list \<Rightarrow> bool \<Rightarrow> load" where
  "loadclosure H w p env =
     (case consume p SIZEOF_SIZE_T of
        None \<Rightarrow> OutOfBounds
      | Some (p1, bs) \<Rightarrow>
          (let sz = le_nat bs
           in if sz > length p1 then OutOfBounds
              else case undump H (take sz p1) of
                     Inl err \<Rightarrow> Null (lua_push w err)
                   | Inr (chunks, names) \<Rightarrow>
                       Next (lua_push (w\<lparr>next_id := next_id w + 1\<rparr>)
                               (LLClosure (next_id w) chunks (loaded_upvalues (globals w) names)))
                            (drop sz p1) env))"

text \<open>
  The end of the custom branch: the stack holds the serde table, \<open>de\<close> and the
  stream; \<^verbatim>\<open>lua_pcall\<close> leaves an error object or one value, which gets the serde
  table as its metatable.
\<close>

definition call_deserialize ::
    "host \<Rightarrow> world \<Rightarrow> lua_value \<Rightarrow> lua_value \<Rightarrow> byte list \<Rightarrow> byte list \<Rightarrow> bool \<Rightarrow> load" where
  "call_deserialize H w ser de span p env =
     (case de_run H de span of
        Inl err \<Rightarrow> Null (w\<lparr>stack := stack w @ [LSerde ser de, err]\<rparr>)
      | Inr v \<Rightarrow> Next (lua_push w (lua_setmetatable v ser de)) p env)"

definition drop_top :: "nat \<Rightarrow> lua_value list \<Rightarrow> lua_value list" where
  "drop_top k st = take (length st - k) st"

text \<open>
  \<^verbatim>\<open>loadsharedimpl\<close>, the loop of \<^verbatim>\<open>loadupvalues\<close> (\<open>count\<close> values), and
  \<^verbatim>\<open>loadshared\<close>.  The first argument bounds the depth of the calls of
  \<^verbatim>\<open>loadsharedimpl\<close>.  In the custom branch the stack operations between the
  comments \<^verbatim>\<open>/* ..., stream, cache, serde, ser, de */\<close> and
  \<^verbatim>\<open>/* ..., serde, de, stream */\<close> are taken together, and the pointer returned is the
  one behind the size field, as in the source.
\<close>

fun loadsharedimpl :: "nat \<Rightarrow> host \<Rightarrow> world \<Rightarrow> byte list \<Rightarrow> bool \<Rightarrow> load"
and loadupvalues_loop :: "nat \<Rightarrow> host \<Rightarrow> world \<Rightarrow> byte list \<Rightarrow> bool \<Rightarrow> nat \<Rightarrow> load"
and loadshared :: "nat \<Rightarrow> host \<Rightarrow> world \<Rightarrow> byte list \<Rightarrow> load"
where
  "loadsharedimpl 0 H w p env = Diverged"
| "loadsharedimpl (Suc n) H w p env =
     (case consume p SIZEOF_TYPE_CODE of
        None \<Rightarrow> OutOfBounds
      | Some (p1, tb) \<Rightarrow>
          (let type = hd tb
           in if sint type < 0 then Null (lua_push w (LString (ascii ''invalid type'')))
              else if type = SERDE_ENV then Next w p1 True
              else if type = SERDE_NIL then Next (lua_push w LNil) p1 env
              else if type = SERDE_BOOLEAN then
                (case consume p1 SIZEOF_BOOL of
                   None \<Rightarrow> OutOfBounds
                 | Some (p2, bs) \<Rightarrow> Next (lua_push w (LBoolean (le_nat bs \<noteq> 0))) p2 env)
              else if type = SERDE_LIGHTUSERDATA then
                (case consume p1 SIZEOF_POINTER of
                   None \<Rightarrow> OutOfBounds
                 | Some (p2, bs) \<Rightarrow> Next (lua_push w (LLightUserdata (word_of_nat (le_nat bs)))) p2 env)
              else if type = SERDE_NUMBER then
                (case consume p1 SIZEOF_LUA_NUMBER of
                   None \<Rightarrow> OutOfBounds
                 | Some (p2, bs) \<Rightarrow> Next (lua_push w (LNumber (word_of_nat (le_nat bs)))) p2 env)
              else if type = SERDE_INTEGER then
                (case consume p1 SIZEOF_LUA_INTEGER of
                   None \<Rightarrow> OutOfBounds
                 | Some (p2, bs) \<Rightarrow> Next (lua_push w (LInteger (word_of_nat (le_nat bs)))) p2 env)
              else if type = SERDE_STRING then
                (case consume p1 SIZEOF_SIZE_T of
                   None \<Rightarrow> OutOfBounds
                 | Some (p2, bs) \<Rightarrow>
                     (case consume p2 (le_nat bs) of
                        None \<Rightarrow> OutOfBounds
                      | Some (p3, str) \<Rightarrow> Next (lua_push w (LString str)) p3 env))
              else if type = SERDE_LCLOSURE then
                (let bottom = lua_gettop w + 1
                 in case consume p1 SIZEOF_UNSIGNED of
                      None \<Rightarrow> OutOfBounds
                    | Some (p2, bs) \<Rightarrow>
                        (case loadupvalues_loop n H w p2 False (le_nat bs) of
                           Next w1 p3 env1 \<Rightarrow>
                             (case loadclosure H w1 p3 env1 of
                                Next w2 p4 _ \<Rightarrow> Next (setupvalues w2 bottom env1) p4 env
                              | r \<Rightarrow> r)
                         | r \<Rightarrow> r))
              else if type = SERDE_CCLOSURE then
                (let bottom = lua_gettop w + 1
                 in case consume p1 SIZEOF_UNSIGNED of
                      None \<Rightarrow> OutOfBounds
                    | Some (p2, bs) \<Rightarrow>
                        (case loadupvalues_loop n H w p2 False (le_nat bs) of
                           Next w1 p3 env1 \<Rightarrow>
                             (case consume p3 SIZEOF_POINTER of
                                None \<Rightarrow> OutOfBounds
                              | Some (p4, fs) \<Rightarrow>
                                  Next (setupvalues (lua_push w1 (LCFunction (word_of_nat (le_nat fs)))) bottom env1)
                                    p4 env)
                         | r \<Rightarrow> r))
              else
                (case consume p1 SIZEOF_SIZE_T of
                   None \<Rightarrow> OutOfBounds
                 | Some (p2, bs) \<Rightarrow>
                     (let sz = le_nat bs
                      in if \<not> fmemopen_ok H sz then Null (lua_push w (LString (ascii ''fmemopen'')))
                         else if sz > length p2 then OutOfBounds
                         else
                           (let span = take sz p2;
                                w1 = lua_push w (LStream span)
                            in case map_of (registry w1) type of
                                 Some (ser, de) \<Rightarrow> call_deserialize H w ser de span p2 env
                               | None \<Rightarrow>
                                   (case serde_cache w1 (nat (sint type) - unat SERDE_CUSTOM) of
                                      None \<Rightarrow> OutOfBounds
                                    | Some serde \<Rightarrow>
                                        (case loadshared n H (lua_push (lua_push w1 LCache) (LSerde LNil LNil)) serde of
                                           Next w2 serde1 _ \<Rightarrow>
                                             (case loadshared n H w2 serde1 of
                                                Next w3 _ _ \<Rightarrow>
                                                  (let de = last (stack w3);
                                                       ser = last (butlast (stack w3))
                                                   in call_deserialize H
                                                        (w3\<lparr>stack := drop_top 5 (stack w3),
                                                            registry := AList.update type (ser, de) (registry w3)\<rparr>)
                                                        ser de span p2 env)
                                              | r \<Rightarrow> r)
                                         | r \<Rightarrow> r)))))))"
| "loadupvalues_loop n H w p env 0 = Next w p env"
| "loadupvalues_loop n H w p env (Suc count) =
     (case loadsharedimpl n H w p env of
        Next w1 p1 env1 \<Rightarrow> loadupvalues_loop n H w1 p1 env1 count
      | r \<Rightarrow> r)"
| "loadshared n H w p =
     (case loadsharedimpl n H w p (junk_env H) of
        Next w1 p1 env \<Rightarrow> if env then Null w1 else Next w1 p1 env
      | r \<Rightarrow> r)"

section \<open>The wire format\<close>

text \<open>
  The grammar of the specification: a value is a tag and a payload; the payload of
  nil and of the environment marker is empty, of a boolean one byte, of a pointer,
  an integer and a float 8 bytes, of a string a \<^verbatim>\<open>size_t\<close> length and the bytes, of a
  closure the upvalue list (a 32-bit count and the values) and then the function
  pointer or the length-prefixed bytecode.  \<open>wire\<close> is that grammar for the built-in
  kinds of value; the upvalue of a closure is written as the environment marker
  when it is named \<^verbatim>\<open>_ENV\<close> and as a scalar otherwise.
\<close>

fun wire_scalar :: "lua_value \<Rightarrow> byte list" where
  "wire_scalar LNil = [SERDE_NIL]"
| "wire_scalar (LBoolean b) = SERDE_BOOLEAN # le_bytes SIZEOF_BOOL (if b then 1 else 0)"
| "wire_scalar (LLightUserdata p) = SERDE_LIGHTUSERDATA # le_bytes SIZEOF_POINTER (unat p)"
| "wire_scalar (LInteger x) = SERDE_INTEGER # le_bytes SIZEOF_LUA_INTEGER (unat x)"
| "wire_scalar (LNumber x) = SERDE_NUMBER # le_bytes SIZEOF_LUA_NUMBER (unat x)"
| "wire_scalar (LString s) = SERDE_STRING # le_bytes SIZEOF_SIZE_T (length s) @ s"
| "wire_scalar _ = []"

definition wire_upvalue :: "string \<times> lua_value \<Rightarrow> byte list" where
  "wire_upvalue u = (if fst u = ''_ENV'' then [SERDE_ENV] else wire_scalar (snd u))"

definition wire_upvalues :: "(string \<times> lua_value) list \<Rightarrow> byte list" where
  "wire_upvalues ups = le_bytes SIZEOF_UNSIGNED (length ups) @ concat (map wire_upvalue ups)"

fun wire :: "lua_value \<Rightarrow> byte list" where
  "wire (LCFunction f) =
     SERDE_CCLOSURE # wire_upvalues [] @ le_bytes SIZEOF_POINTER (unat f)"
| "wire (LCClosure i f ups) =
     SERDE_CCLOSURE # wire_upvalues (map (\<lambda>v. ([], v)) ups) @ le_bytes SIZEOF_POINTER (unat f)"
| "wire (LLClosure i chunks ups) =
     SERDE_LCLOSURE # wire_upvalues ups
       @ le_bytes SIZEOF_SIZE_T (length (concat chunks)) @ concat chunks"
| "wire v = wire_scalar v"

text \<open>An upvalue the encoder accepts: the environment, or a value of a scalar kind.\<close>

definition simple_upvalue :: "string \<times> lua_value \<Rightarrow> bool" where
  "simple_upvalue u =
     (fst u = ''_ENV'' \<or>
      lua_type_of (snd u) \<in> {LUA_TNIL, LUA_TBOOLEAN, LUA_TLIGHTUSERDATA, LUA_TNUMBER, LUA_TSTRING})"

section \<open>Running out of memory\<close>

text \<open>
  A host that never refuses memory: \<^verbatim>\<open>mallocx\<close>, \<^verbatim>\<open>rallocx\<close> and \<^verbatim>\<open>malloc\<close> return a
  block, \<^verbatim>\<open>fwopen\<close> a stream, and the hash table takes every new key.  \<open>enomem H e\<close>
  says that \<open>e\<close> is \<^verbatim>\<open>ENOMEM\<close> and that \<open>H\<close> is not such a host.
\<close>

definition never_fails :: "host \<Rightarrow> bool" where
  "never_fails H =
     ((\<forall>sz fl. mallocx H sz fl \<noteq> 0) \<and> (\<forall>p sz fl. rallocx H p sz fl \<noteq> 0) \<and>
      malloc_ok H \<and> fwopen_ok H \<and> (\<forall>k. ht_put_ok H k))"

definition enomem :: "host \<Rightarrow> error \<Rightarrow> bool" where
  "enomem H e = (e = ENOMEM \<and> \<not> never_fails H)"

section \<open>A concrete host and a family of reachable states\<close>

text \<open>
  A host whose allocator always succeeds and whose \<^verbatim>\<open>rallocx\<close> moves the block on
  every call, and the state of a process right after the module has been loaded.
\<close>

definition H0 :: host where
  "H0 = \<lparr>mallocx = (\<lambda>sz fl. 4096), rallocx = (\<lambda>p sz fl. p + 4096), malloc_ok = True,
          fwopen_ok = True, fmemopen_ok = (\<lambda>n. True), ht_put_ok = (\<lambda>k. True),
          ser_run = (\<lambda>ser v. Write [1, 2, 3] Done Raise),
          de_run = (\<lambda>de span. Inr (LString span)),
          undump = (\<lambda>bs. Inr ([bs], [])), junk = 0, junk_env = False\<rparr>"

definition W0 :: world where
  "W0 = \<lparr>serde_cache = (\<lambda>i. None), serde_cache_len = 0, serde_cache_types = (\<lambda>k. None),
          registry = [], live = 0, stack = [], globals = LTable 0 LNil LNil, next_id = 1\<rparr>"

text \<open>
  The \<open>k\<close>-th of a family of custom values: a table whose metatable holds two C
  functions of its own as \<^verbatim>\<open>serialize\<close> and \<^verbatim>\<open>deserialize\<close>.  \<open>registered n\<close> is the
  state after the first \<open>n\<close> of them have been resolved by \<^verbatim>\<open>cache_serde\<close>, one after
  the other.
\<close>

definition custom_ser :: "nat \<Rightarrow> lua_value" where
  "custom_ser k = LCFunction (word_of_nat (2 * k + 1))"

definition custom_de :: "nat \<Rightarrow> lua_value" where
  "custom_de k = LCFunction (word_of_nat (2 * k + 2))"

definition custom_value :: "nat \<Rightarrow> lua_value" where
  "custom_value k = LTable (Suc k) (custom_ser k) (custom_de k)"

definition custom_key :: "nat \<Rightarrow> byte list" where
  "custom_key k = wire (custom_ser k) @ wire (custom_de k)"

fun registered :: "nat \<Rightarrow> world" where
  "registered 0 = W0"
| "registered (Suc n) = snd (cache_serde H0 (registered n) (custom_value n))"

text \<open>
  What holds of \<open>registered n\<close> as long as the codes have not wrapped around onto
  each other: the first \<open>n\<close> slots, keys and registry entries are those of the
  first \<open>n\<close> pairs.
\<close>

definition registered_inv :: "nat \<Rightarrow> world \<Rightarrow> bool" where
  "registered_inv n w \<longleftrightarrow>
     serde_cache_len w = n \<and>
     registry w = map (\<lambda>i. (custom_type_code i, custom_ser i, custom_de i)) [0..<n] \<and>
     (\<forall>i < 2 ^ 62. serde_cache_types w (custom_key i) = (if i < n then Some i else None)) \<and>
     (\<forall>i. serde_cache w i = (if i < n then Some (custom_key i) else None)) \<and>
     live w = n \<and> stack w = []"


declare loadsharedimpl.simps [simp del] loadupvalues_loop.simps [simp del] loadshared.simps [simp del]
  registered.simps [simp del] setupvalues_loop.simps [simp del]

section \<open>Reading a length field back\<close>

text \<open>
  The value of the \<open>k\<close>-byte field at offset \<open>off\<close> of a byte sequence, and the bytes
  that follow that field.
\<close>

definition field_at :: "nat \<Rightarrow> nat \<Rightarrow> byte list \<Rightarrow> nat" where
  "field_at k off bs = le_nat (take k (drop off bs))"

definition after_field :: "nat \<Rightarrow> nat \<Rightarrow> byte list \<Rightarrow> byte list" where
  "after_field k off bs = drop (off + k) bs"

section \<open>The slots of the custom types\<close>

text \<open>
  What \<^verbatim>\<open>cache_serde\<close> stores in a slot: the encoding of the two functions of a
  pair, one after the other, of at most \<^verbatim>\<open>UINT16_MAX\<close> bytes.
\<close>

definition slots_wired :: "world \<Rightarrow> bool" where
  "slots_wired w \<longleftrightarrow>
     (\<forall>i bs. serde_cache w i = Some bs \<longrightarrow>
        (\<exists>ser de. lua_type_of ser = LUA_TFUNCTION \<and> lua_type_of de = LUA_TFUNCTION \<and>
           list_all simple_upvalue (lua_getupvalues ser) \<and>
           list_all simple_upvalue (lua_getupvalues de) \<and>
           bs = wire ser @ wire de \<and> length bs \<le> UINT16_MAX))"

section \<open>A run of one interpreter\<close>





text \<open>
  An entry of the registry table that holds functions identical to the two of the
  pair \<open>(ser, de)\<close> holds the pair itself, under the code of the slot that the
  hash table gives to the encoding of the pair.
\<close>

definition registry_keeps :: "lua_value \<Rightarrow> lua_value \<Rightarrow> world \<Rightarrow> bool" where
  "registry_keeps ser de w \<longleftrightarrow>
     (\<forall>(c, s, d) \<in> set (registry w).
        lua_rawequal ser s \<and> lua_rawequal de d \<longrightarrow>
          s = ser \<and> d = de \<and>
          (\<exists>i. serde_cache_types w (wire ser @ wire de) = Some i \<and> c = custom_type_code i))"

text \<open>The hash table of \<open>w'\<close> extends that of \<open>w\<close>.\<close>

definition table_grows :: "world \<Rightarrow> world \<Rightarrow> bool" where
  "table_grows w w' \<longleftrightarrow> (\<forall>k i. serde_cache_types w k = Some i \<longrightarrow> serde_cache_types w' k = Some i)"

text \<open>
  From \<open>w\<close> to \<open>w'\<close> the hash table has kept its keys, and the registry table its
  property if it had it.
\<close>

definition evolves :: "lua_value \<Rightarrow> lua_value \<Rightarrow> world \<Rightarrow> world \<Rightarrow> bool" where
  "evolves ser de w w' \<longleftrightarrow>
     table_grows w w' \<and> (registry_keeps ser de w \<longrightarrow> registry_keeps ser de w')"



section \<open>Buffer growth\<close>

lemma serdebuf_size_used: "serdebuf_size sb = length (used sb)"
  by (simp add: serdebuf_size_def cur_def)

lemma serdebuf_append_cases:
  assumes "serdebuf_append A sb p = Inr sb'"
  shows "used sb' = used sb @ p"
    and "length (used sb) + length p \<le> cap sb \<Longrightarrow> cap sb' = cap sb \<and> buf sb' = buf sb"
    and "length (used sb) + length p > cap sb \<Longrightarrow>
           cap sb' = serdebuf_roundup (max (2 * cap sb) (length (used sb) + length p))"
  using assms
  by (auto simp: serdebuf_append_def serdebuf_resize_def serdebuf_size_used mempcpy_def
        Let_def max_def split: if_splits sum.splits)

lemma serdebuf_append_used:
  "serdebuf_append A sb p = Inr sb' \<Longrightarrow> used sb' = used sb @ p"
  by (rule serdebuf_append_cases(1))

lemma serdebuf_append_error:
  "serdebuf_append H sb p = Inl e \<Longrightarrow> enomem H e"
  by (auto simp: serdebuf_append_def serdebuf_resize_def Let_def enomem_def never_fails_def
        split: if_splits sum.splits)

lemma never_fails_append:
  "never_fails H \<Longrightarrow> \<exists>sb'. serdebuf_append H sb p = Inr sb'"
  by (cases "serdebuf_append H sb p") (auto dest: serdebuf_append_error simp: enomem_def)

lemma roundup2_ge: "0 < y \<Longrightarrow> x \<le> roundup2 x y"
proof -
  assume y: "0 < y"
  have "x + (y - 1) < ((x + (y - 1)) div y) * y + y"
    using y by (metis add.commute dividend_less_div_times)
  then show ?thesis using y by (simp add: roundup2_def)
qed

lemma roundup2_lt: "0 < y \<Longrightarrow> roundup2 x y < x + y"
proof -
  assume y: "0 < y"
  have "((x + (y - 1)) div y) * y \<le> x + (y - 1)" by simp
  also have "\<dots> < x + y" using y by simp
  finally show ?thesis by (simp only: roundup2_def)
qed

lemma roundup2_dvd: "y dvd roundup2 x y"
  by (simp add: roundup2_def)

lemma serdebuf_roundup_ge: "n \<le> serdebuf_roundup n"
  by (simp add: serdebuf_roundup_def roundup2_ge CK_MD_PAGESIZE_def CK_MD_CACHELINE_def)

lemma serdebuf_roundup_granule:
  "(n \<ge> CK_MD_PAGESIZE \<longrightarrow> CK_MD_PAGESIZE dvd serdebuf_roundup n \<and> serdebuf_roundup n < n + CK_MD_PAGESIZE)
   \<and> (n < CK_MD_PAGESIZE \<longrightarrow> CK_MD_CACHELINE dvd serdebuf_roundup n \<and> serdebuf_roundup n < n + CK_MD_CACHELINE)"
  by (simp add: serdebuf_roundup_def roundup2_dvd roundup2_lt CK_MD_PAGESIZE_def CK_MD_CACHELINE_def)

section \<open>The bytes the encoder writes\<close>


lemma length_le_bytes [simp]: "length (le_bytes k n) = k"
  by (induction k arbitrary: n) auto

lemma le_nat_le_bytes: "le_nat (le_bytes k n) = n mod 256 ^ k"
proof (induction k arbitrary: n)
  case 0
  then show ?case by simp
next
  case (Suc k)
  have "unat (word_of_nat (n mod 256) :: byte) = n mod 256"
    by (simp add: unat_of_nat)
  then show ?case
    using Suc [of "n div 256"] by (simp add: mod_mult2_eq)
qed

lemma le_nat_le_bytes_small: "n < 256 ^ k \<Longrightarrow> le_nat (le_bytes k n) = n"
  by (simp add: le_nat_le_bytes)

lemma dump_writes_used:
  "dump_writes H sb cs = Inr sb' \<Longrightarrow> used sb' = used sb @ concat cs"
proof (induction cs arbitrary: sb)
  case Nil
  then show ?case by simp
next
  case (Cons c cs)
  then show ?case
    by (auto split: sum.splits dest: serdebuf_append_used)
qed

lemma dump_writes_error:
  "dump_writes H sb cs = Inl e \<Longrightarrow> enomem H e"
  by (induction cs arbitrary: sb) (auto split: sum.splits dest: serdebuf_append_error)

lemma run_writes_used:
  "run_writes H sb prog = (sb', ok) \<Longrightarrow> \<exists>bs. used sb' = used sb @ bs"
proof (induction prog arbitrary: sb)
  case Done
  then show ?case by simp
next
  case Raise
  then show ?case by simp
next
  case (Write bs ok' failed)
  show ?case
  proof (cases "serdebuf_append H sb bs")
    case (Inl e)
    with Write show ?thesis by simp
  next
    case (Inr sb1)
    with Write.prems have "run_writes H sb1 ok' = (sb', ok)" by simp
    from Write.IH(1) [OF this] obtain cs where "used sb' = used sb1 @ cs" ..
    with serdebuf_append_used [OF Inr] show ?thesis by simp
  qed
qed

lemma store_at_patch:
  assumes "used sb = pre @ ph @ post" "length ph = length bs" "a = buf sb + length pre"
  shows "store_at sb a bs = Inr (sb\<lparr>used := pre @ bs @ post\<rparr>)"
  using assms by (simp add: store_at_def cur_def Let_def)

lemma serdebuf_dump_result:
  "case serdebuf_dump H v sb of
     Inl e \<Rightarrow> enomem H e \<or> (e = EPERM \<and> lua_dump v = None)
   | Inr sb' \<Rightarrow> (\<exists>chunks. lua_dump v = Some chunks \<and>
        used sb' = used sb @ le_bytes SIZEOF_SIZE_T (length (concat chunks)) @ concat chunks)"
proof (cases "serdebuf_append H sb (placeholder H SIZEOF_SIZE_T)")
  case (Inl e)
  then show ?thesis
    using serdebuf_append_error [OF Inl] by (simp add: serdebuf_dump_def)
next
  case a1: (Inr sb1)
  have u1: "used sb1 = used sb @ placeholder H SIZEOF_SIZE_T"
    by (rule serdebuf_append_used [OF a1])
  show ?thesis
  proof (cases "lua_dump v")
    case None
    then show ?thesis using a1 by (simp add: serdebuf_dump_def)
  next
    case c: (Some chunks)
    show ?thesis
    proof (cases "dump_writes H sb1 chunks")
      case (Inl e)
      then show ?thesis
        using a1 c dump_writes_error [OF Inl] by (simp add: serdebuf_dump_def)
    next
      case d: (Inr sb2)
      have u2: "used sb2 = used sb @ placeholder H SIZEOF_SIZE_T @ concat chunks"
        using dump_writes_used [OF d] u1 by simp
      have st: "store_at sb2 (buf sb2 + serdebuf_size sb1 - SIZEOF_SIZE_T)
                  (le_bytes SIZEOF_SIZE_T (serdebuf_size sb2 - serdebuf_size sb1))
                = Inr (sb2\<lparr>used := used sb @ le_bytes SIZEOF_SIZE_T (serdebuf_size sb2 - serdebuf_size sb1) @ concat chunks\<rparr>)"
        by (rule store_at_patch [OF u2]) (simp_all add: placeholder_def serdebuf_size_used u1)
      have "serdebuf_size sb2 - serdebuf_size sb1 = length (concat chunks)"
        by (simp add: serdebuf_size_used u1 u2)
      with a1 c d st show ?thesis
        by (simp add: serdebuf_dump_def Let_def)
    qed
  qed
qed

lemma serdebuf_dump_used:
  assumes "serdebuf_dump H v sb = Inr sb'"
  shows "\<exists>chunks. lua_dump v = Some chunks \<and>
           used sb' = used sb @ le_bytes SIZEOF_SIZE_T (length (concat chunks)) @ concat chunks"
  using serdebuf_dump_result [where H = H and v = v and sb = sb] assms by simp

lemma serdebuf_dump_error:
  assumes "serdebuf_dump H v sb = Inl e"
  shows "enomem H e \<or> (e = EPERM \<and> lua_dump v = None)"
  using serdebuf_dump_result [where H = H and v = v and sb = sb] assms by simp

lemma serdebuf_serialize_custom_used:
  assumes "serdebuf_serialize_custom H ser v sb = Inr sb'"
  shows "\<exists>blob. used sb' = used sb @ le_bytes SIZEOF_SIZE_T (length blob) @ blob"
proof -
  from assms obtain sb1 where a1: "serdebuf_append H sb (placeholder H SIZEOF_SIZE_T) = Inr sb1"
    by (auto simp: serdebuf_serialize_custom_def split: if_splits sum.splits)
  from assms a1 obtain sb2 where r: "run_writes H sb1 (ser_run H ser v) = (sb2, True)"
    by (auto simp: serdebuf_serialize_custom_def Let_def split: if_splits prod.splits bool.splits)
  have u1: "used sb1 = used sb @ placeholder H SIZEOF_SIZE_T"
    by (rule serdebuf_append_used [OF a1])
  from run_writes_used [OF r] obtain blob where "used sb2 = used sb1 @ blob" ..
  then have u2: "used sb2 = used sb @ placeholder H SIZEOF_SIZE_T @ blob"
    using u1 by simp
  have st: "store_at sb2 (buf sb2 + serdebuf_size sb1 - SIZEOF_SIZE_T)
              (le_bytes SIZEOF_SIZE_T (serdebuf_size sb2 - serdebuf_size sb1))
            = Inr (sb2\<lparr>used := used sb @ le_bytes SIZEOF_SIZE_T (serdebuf_size sb2 - serdebuf_size sb1) @ blob\<rparr>)"
    by (rule store_at_patch [OF u2]) (simp_all add: placeholder_def serdebuf_size_used u1)
  have "serdebuf_size sb2 - serdebuf_size sb1 = length blob"
    by (simp add: serdebuf_size_used u1 u2)
  with assms a1 r st show ?thesis
    by (auto simp: serdebuf_serialize_custom_def Let_def split: if_splits)
qed

declare serdebuf_serialize.simps [simp del] serdebuf_serialize_upvalues.simps [simp del]
  cache_serde.simps [simp del]

lemma map_sum_Inl_iff [simp]: "map_sum id f x = Inl e \<longleftrightarrow> x = Inl e"
  by (cases x) auto

lemma map_sum_Inr_pair_iff [simp]:
  "map_sum id (\<lambda>s. (s, t)) x = Inr (a, b) \<longleftrightarrow> x = Inr a \<and> b = t"
  by (cases x) auto

lemma serdebuf_serialize_env:
  assumes "serdebuf_serialize H w v sb SERDE_ENV = (r, w')"
  shows "w' = w \<and> (case r of Inl e \<Rightarrow> enomem H e
                     | Inr (sb', t) \<Rightarrow> used sb' = used sb @ [SERDE_ENV] \<and> t = SERDE_ENV)"
  using assms unfolding serdebuf_serialize.simps [of H w v sb SERDE_ENV]
  by (auto simp: serde_type_encode_def serde_codes Let_def
      split: sum.splits dest!: serdebuf_append_used serdebuf_append_error)

lemma serdebuf_serialize_scalar:
  assumes "serdebuf_serialize H w v sb SERDE_ANY = (r, w')"
    and "lua_type_of v \<in> {LUA_TNIL, LUA_TBOOLEAN, LUA_TLIGHTUSERDATA, LUA_TNUMBER, LUA_TSTRING}"
  shows "w' = w \<and> (case r of Inl e \<Rightarrow> enomem H e
                     | Inr (sb', t) \<Rightarrow> used sb' = used sb @ wire_scalar v \<and> t = serde_type v)"
  using assms unfolding serdebuf_serialize.simps [of H w v sb SERDE_ANY]
  by (cases v)
     (auto simp: serde_type_encode_def serde_type_def serde_codes Let_def
      split: sum.splits dest!: serdebuf_append_used serdebuf_append_error)


lemma not_simple_upvalue:
  "\<not> simple_upvalue (name, val) \<longleftrightarrow>
     name \<noteq> ''_ENV'' \<and> lua_type_of val \<in> {LUA_TFUNCTION, LUA_TTABLE, LUA_TUSERDATA, LUA_TTHREAD}"
  by (cases "lua_type_of val") (auto simp: simple_upvalue_def)

lemma upvalues_loop_result:
  assumes "upvalues_loop H w ups sb i = (r, w')"
  shows "w' = w \<and>
         (case r of
            Inl e \<Rightarrow> enomem H e \<or> (e = EINVAL \<and> \<not> list_all simple_upvalue ups)
          | Inr (sb', j) \<Rightarrow> list_all simple_upvalue ups \<and> j = i + length ups \<and>
                            used sb' = used sb @ concat (map wire_upvalue ups))"
  using assms
proof (induction ups arbitrary: sb i)
  case Nil
  then show ?case by auto
next
  case (Cons u ups)
  obtain name val where u: "u = (name, val)" by (cases u)
  show ?case
  proof (cases "simple_upvalue (name, val)")
    case False
    then show ?thesis
      using Cons.prems u by (auto simp: not_simple_upvalue)
  next
    case True
    define ty where "ty = (if name = ''_ENV'' then SERDE_ENV else SERDE_ANY)"
    obtain r1 w1 where s: "serdebuf_serialize H w val sb ty = (r1, w1)"
      by (cases "serdebuf_serialize H w val sb ty")
    have one: "w1 = w \<and> (case r1 of Inl e \<Rightarrow> enomem H e
                 | Inr (sb', t) \<Rightarrow> used sb' = used sb @ wire_upvalue (name, val))"
    proof (cases "name = ''_ENV''")
      case True
      with s serdebuf_serialize_env [of H w val sb r1 w1] show ?thesis
        by (auto simp: ty_def wire_upvalue_def split: sum.splits)
    next
      case False
      with True have "lua_type_of val \<in> {LUA_TNIL, LUA_TBOOLEAN, LUA_TLIGHTUSERDATA, LUA_TNUMBER, LUA_TSTRING}"
        by (simp add: simple_upvalue_def)
      with s False serdebuf_serialize_scalar [of H w val sb r1 w1] show ?thesis
        by (auto simp: ty_def wire_upvalue_def split: sum.splits)
    qed
    have ns: "\<not> (name \<noteq> ''_ENV'' \<and> lua_type_of val \<in> {LUA_TFUNCTION, LUA_TTABLE, LUA_TUSERDATA, LUA_TTHREAD})"
      using True not_simple_upvalue [of name val] by blast
    show ?thesis
    proof (cases r1)
      case (Inl e)
      with Cons.prems u s one ns show ?thesis
        by (auto simp: ty_def Let_def split: if_splits)
    next
      case (Inr q)
      obtain sb1 t1 where q: "q = (sb1, t1)" by (cases q)
      from Cons.prems u s one ns Inr q
      have rest: "upvalues_loop H w ups sb1 (i + 1) = (r, w')"
        by (auto simp: ty_def Let_def split: if_splits)
      from one Inr q have u1: "used sb1 = used sb @ wire_upvalue (name, val)" by simp
      from Cons.IH [OF rest] u1 True u show ?thesis
        by (auto split: sum.splits)
    qed
  qed
qed

lemma serdebuf_serialize_upvalues_result:
  assumes "serdebuf_serialize_upvalues H w v sb = (r, w')"
  shows "w' = w \<and>
         (case r of
            Inl e \<Rightarrow> enomem H e \<or> (e = EINVAL \<and> \<not> list_all simple_upvalue (lua_getupvalues v))
          | Inr sb' \<Rightarrow> list_all simple_upvalue (lua_getupvalues v) \<and>
                       used sb' = used sb @ wire_upvalues (lua_getupvalues v))"
proof (cases "serdebuf_append H sb (placeholder H SIZEOF_UNSIGNED)")
  case (Inl e)
  have e: "enomem H e" by (rule serdebuf_append_error [OF Inl])
  from assms have "r = Inl e" "w' = w"
    unfolding serdebuf_serialize_upvalues.simps Let_def Inl by simp_all
  then show ?thesis using e by simp
next
  case (Inr sb1)
  have u1: "used sb1 = used sb @ placeholder H SIZEOF_UNSIGNED"
    by (rule serdebuf_append_used [OF Inr])
  obtain r1 w1 where l: "upvalues_loop H w (lua_getupvalues v) sb1 (Suc 0) = (r1, w1)"
    by (cases "upvalues_loop H w (lua_getupvalues v) sb1 (Suc 0)")
  note lr = upvalues_loop_result [OF l]
  show ?thesis
  proof (cases r1)
    case (Inl e)
    with assms Inr l lr show ?thesis
      by (auto simp: serdebuf_serialize_upvalues.simps Let_def)
  next
    case (Inr q)
    obtain sb2 j where q: "q = (sb2, j)" by (cases q)
    from lr Inr q have j: "j = Suc (length (lua_getupvalues v))"
      and simple: "list_all simple_upvalue (lua_getupvalues v)"
      and u2: "used sb2 = used sb @ placeholder H SIZEOF_UNSIGNED
                  @ concat (map wire_upvalue (lua_getupvalues v))"
      using u1 by auto
    have st: "store_at sb2 (buf sb2 + serdebuf_size sb) (le_bytes SIZEOF_UNSIGNED (j - 1))
              = Inr (sb2\<lparr>used := used sb @ le_bytes SIZEOF_UNSIGNED (j - 1)
                                   @ concat (map wire_upvalue (lua_getupvalues v))\<rparr>)"
      by (rule store_at_patch [OF u2]) (simp_all add: placeholder_def serdebuf_size_used)
    from assms have "r = store_at sb2 (buf sb2 + serdebuf_size sb) (le_bytes SIZEOF_UNSIGNED (j - 1))"
      and w': "w' = w1"
      by (simp_all add: serdebuf_serialize_upvalues.simps Let_def
            \<open>serdebuf_append H sb (placeholder H SIZEOF_UNSIGNED) = Inr sb1\<close> l Inr q)
    then have "r = Inr (sb2\<lparr>used := used sb @ le_bytes SIZEOF_UNSIGNED (j - 1)
                                   @ concat (map wire_upvalue (lua_getupvalues v))\<rparr>)"
      using st by simp
    then show ?thesis
      using w' lr j simple by (simp add: wire_upvalues_def)
  qed
qed


lemma serde_type_function:
  "lua_type_of v = LUA_TFUNCTION \<Longrightarrow>
     serde_type v = (if lua_iscfunction v then SERDE_CCLOSURE else SERDE_LCLOSURE)"
  by (simp add: serde_type_def)

lemma serdebuf_serialize_function:
  assumes "serdebuf_serialize H w v sb SERDE_ANY = (r, w')" and f: "lua_type_of v = LUA_TFUNCTION"
  shows "w' = w \<and>
         (case r of
            Inl e \<Rightarrow> enomem H e \<or> (e = EINVAL \<and> \<not> list_all simple_upvalue (lua_getupvalues v))
          | Inr (sb', t) \<Rightarrow> list_all simple_upvalue (lua_getupvalues v) \<and>
                            used sb' = used sb @ wire v \<and> t = serde_type v \<and>
                            (t = SERDE_LCLOSURE \<or> t = SERDE_CCLOSURE))"
proof -
  note a = assms(1) [unfolded serdebuf_serialize.simps [of H w v sb SERDE_ANY]]
  show ?thesis
proof (cases "serdebuf_append H sb [serde_type v]")
  case (Inl e)
  have e: "enomem H e" by (rule serdebuf_append_error [OF Inl])
  from a have "r = Inl e" "w' = w"
    by (simp_all add: Let_def serde_type_encode_def Inl)
  then show ?thesis using e by simp
next
  case (Inr sb1)
  have u1: "used sb1 = used sb @ [serde_type v]" by (rule serdebuf_append_used [OF Inr])
  obtain r1 w1 where up: "serdebuf_serialize_upvalues H w v sb1 = (r1, w1)"
    by (cases "serdebuf_serialize_upvalues H w v sb1")
  note ur = serdebuf_serialize_upvalues_result [OF up]
  show ?thesis
  proof (cases "lua_iscfunction v")
    case True
    then have t: "serde_type v = SERDE_CCLOSURE" using f by (simp add: serde_type_function)
    have ap: "serdebuf_append H sb [7] = Inr sb1"
      using \<open>serdebuf_append H sb [serde_type v] = Inr sb1\<close> t by (simp add: serde_codes)
    have wv: "wire v = SERDE_CCLOSURE # wire_upvalues (lua_getupvalues v)
                @ le_bytes SIZEOF_POINTER (unat (lua_tocfunction v))"
      using True by (cases v) (simp_all add: wire_upvalues_def)
    show ?thesis
    proof (cases r1)
      case (Inl e)
      from a have "r = Inl e" "w' = w1"
        by (simp_all add: Let_def serde_type_encode_def
              t ap up Inl serde_codes)
      then show ?thesis using ur Inl by simp
    next
      case (Inr sb2)
      from a have r: "r = map_sum id (\<lambda>sb'. (sb', SERDE_CCLOSURE))
                  (serdebuf_append H sb2 (le_bytes SIZEOF_POINTER (unat (lua_tocfunction v))))"
        and w': "w' = w1"
        by (simp_all add: Let_def serde_type_encode_def
              t ap up Inr serde_codes)
      show ?thesis
      proof (cases "serdebuf_append H sb2 (le_bytes SIZEOF_POINTER (unat (lua_tocfunction v)))")
        case (Inl e)
        then show ?thesis using r w' ur serdebuf_append_error [OF Inl] by simp
      next
        case (Inr sb3)
        from serdebuf_append_used [OF Inr] ur \<open>r1 = Inr sb2\<close> u1
        have "used sb3 = used sb @ wire v" by (simp add: wv t)
        then show ?thesis using r w' ur Inr \<open>r1 = Inr sb2\<close> t by simp
      qed
    qed
  next
    case False
    then have t: "serde_type v = SERDE_LCLOSURE" using f by (simp add: serde_type_function)
    have ap: "serdebuf_append H sb [8] = Inr sb1"
      using \<open>serdebuf_append H sb [serde_type v] = Inr sb1\<close> t by (simp add: serde_codes)
    from False f obtain i chunks ups where v: "v = LLClosure i chunks ups"
      by (cases v) simp_all
    show ?thesis
    proof (cases r1)
      case (Inl e)
      from a have "r = Inl e" "w' = w1"
        by (simp_all add: Let_def serde_type_encode_def
              t ap up Inl serde_codes)
      then show ?thesis using ur Inl by simp
    next
      case (Inr sb2)
      from a have r: "r = map_sum id (\<lambda>sb'. (sb', SERDE_LCLOSURE)) (serdebuf_dump H v sb2)"
        and w': "w' = w1"
        by (simp_all add: Let_def serde_type_encode_def
              t ap up Inr serde_codes)
      show ?thesis
      proof (cases "serdebuf_dump H v sb2")
        case (Inl e)
        have "enomem H e"
          using serdebuf_dump_error [OF Inl] v by simp
        then show ?thesis using r w' ur Inl by simp
      next
        case (Inr sb3)
        from serdebuf_dump_used [OF Inr] v
        have "used sb3 = used sb2 @ le_bytes SIZEOF_SIZE_T (length (concat chunks)) @ concat chunks"
          by simp
        with ur \<open>r1 = Inr sb2\<close> u1 have "used sb3 = used sb @ wire v" by (simp add: v t [unfolded v])
        then show ?thesis using r w' ur Inr \<open>r1 = Inr sb2\<close> t by simp
      qed
    qed
  qed
qed
qed

section \<open>Resolving a pair of functions\<close>


lemma serde_type_function_valid:
  "lua_type_of v = LUA_TFUNCTION \<Longrightarrow> serde_type v \<noteq> SERDE_INVALID"
  by (simp add: serde_type_function serde_codes)

text \<open>The slow path of cache_serde for a pair of functions.\<close>

lemma cache_serde_slow:
  assumes gs: "getserdemethods v = Some (ser, de)"
    and fs: "lua_type_of ser = LUA_TFUNCTION" and fd: "lua_type_of de = LUA_TFUNCTION"
    and miss: "registry_scan (registry w) ser de = None"
  shows "(\<exists>e. cache_serde H w v = (Inl e, w) \<and> enomem H e)
       \<or> (\<exists>e. cache_serde H w v = (Inl e, w\<lparr>live := live w + 1\<rparr>) \<and>
               (enomem H e \<or> (e = EINVAL \<and>
                   \<not> (list_all simple_upvalue (lua_getupvalues ser) \<and>
                      list_all simple_upvalue (lua_getupvalues de)))))
       \<or> (\<exists>sb. used sb = wire ser @ wire de \<and>
               list_all simple_upvalue (lua_getupvalues ser) \<and>
               list_all simple_upvalue (lua_getupvalues de) \<and>
               cache_serde H w v = cache_serde_publish H (w\<lparr>live := live w + 1\<rparr>) ser de sb)"
proof -
  define w0 where "w0 = w\<lparr>live := live w + 1\<rparr>"
  note cs = cache_serde.simps [of H w v, unfolded gs option.case prod.case miss]
  show ?thesis
  proof (cases "serdebuf_init H w de")
    case (Pair ri wi)
    show ?thesis
    proof (cases ri)
      case (Inl e)
      with Pair have "wi = w \<and> enomem H e"
        using serde_type_function_valid [OF fd]
        by (auto simp: serdebuf_init_def Let_def enomem_def never_fails_def split: if_splits)
      with cs Pair Inl show ?thesis by simp
    next
      case (Inr sb)
      with Pair have wi: "wi = w0" and sb: "used sb = []"
        by (auto simp: serdebuf_init_def Let_def w0_def split: if_splits)
      obtain r1 w1 where s1: "serdebuf_serialize H w0 ser sb SERDE_ANY = (r1, w1)"
        by (cases "serdebuf_serialize H w0 ser sb SERDE_ANY")
      note f1 = serdebuf_serialize_function [OF s1 fs]
      show ?thesis
      proof (cases r1)
        case (Inl e)
        with cs Pair Inr wi s1 f1 show ?thesis
          unfolding w0_def [symmetric] \<open>ri = Inr sb\<close> by auto
      next
        case r1: (Inr q1)
        obtain sb1 t1 where q1: "q1 = (sb1, t1)" by (cases q1)
        from f1 r1 q1 have w1: "w1 = w0" and u1: "used sb1 = wire ser"
          and t1: "t1 = SERDE_LCLOSURE \<or> t1 = SERDE_CCLOSURE"
          and s1ok: "list_all simple_upvalue (lua_getupvalues ser)"
          using sb by auto
        obtain r2 w2 where s2: "serdebuf_serialize H w0 de sb1 SERDE_ANY = (r2, w2)"
          by (cases "serdebuf_serialize H w0 de sb1 SERDE_ANY")
        note f2 = serdebuf_serialize_function [OF s2 fd]
        show ?thesis
        proof (cases r2)
          case (Inl e)
          with cs Pair \<open>ri = Inr sb\<close> wi s1 r1 q1 w1 t1 s2 f2 show ?thesis
            unfolding w0_def [symmetric] by auto
        next
          case r2: (Inr q2)
          obtain sb2 t2 where q2: "q2 = (sb2, t2)" by (cases q2)
          from f2 r2 q2 have w2: "w2 = w0" and u2: "used sb2 = wire ser @ wire de"
            and t2: "t2 = SERDE_LCLOSURE \<or> t2 = SERDE_CCLOSURE"
            and s2ok: "list_all simple_upvalue (lua_getupvalues de)"
            using u1 by auto
          from cs Pair \<open>ri = Inr sb\<close> wi s1 r1 q1 w1 t1 s2 r2 q2 w2 t2
          have "cache_serde H w v = cache_serde_publish H w0 ser de sb2"
            by auto
          with u2 s1ok s2ok show ?thesis unfolding w0_def by blast
        qed
      qed
    qed
  qed
qed



lemma never_fails_H0: "never_fails H0"
  by (simp add: never_fails_def H0_def)

lemma free_block_live: "0 < p \<Longrightarrow> free_block (w\<lparr>live := Suc (live w)\<rparr>) p = w"
  by (simp add: free_block_def)

lemma cache_serde_publish_overflow:
  assumes "length (used sb) > UINT16_MAX"
  shows "cache_serde_publish H (w\<lparr>live := live w + 1\<rparr>) ser de sb
           = (if rallocx H (buf sb) (length (used sb)) (serdebuf_flags (length (used sb))) = 0
              then (Inl ENOMEM, w\<lparr>live := live w + 1\<rparr>) else (Inl EOVERFLOW, w))"
  using assms
  by (simp add: cache_serde_publish_def serdebuf_finalize_def Let_def serdebuf_size_used free_block_live)

lemma cache_serde_publish_new:
  assumes "length (used sb) \<le> UINT16_MAX" "serde_cache_types w (used sb) = None"
    and "rallocx H (buf sb) (length (used sb)) (serdebuf_flags (length (used sb))) \<noteq> 0"
    and "ht_put_ok H (used sb)"
  shows "cache_serde_publish H w ser de sb
           = (Inr (custom_type_code (serde_cache_len w)),
              w\<lparr>serde_cache := (serde_cache w)(serde_cache_len w := Some (used sb)),
                serde_cache_types := (serde_cache_types w)(used sb := Some (serde_cache_len w)),
                serde_cache_len := serde_cache_len w + 1,
                registry := AList.update (custom_type_code (serde_cache_len w)) (ser, de) (registry w)\<rparr>)"
  using assms
  by (simp add: cache_serde_publish_def serdebuf_finalize_def Let_def serdebuf_size_used)


section \<open>The states reached by registering pairs\<close>


lemma custom_key_eq:
  "custom_key k = SERDE_CCLOSURE # le_bytes 4 0 @ le_bytes 8 (unat (word_of_nat (2 * k + 1) :: 64 word))
      @ SERDE_CCLOSURE # le_bytes 4 0 @ le_bytes 8 (unat (word_of_nat (2 * k + 2) :: 64 word))"
  by (simp add: custom_key_def custom_ser_def custom_de_def wire_upvalues_def
        SIZEOF_UNSIGNED_def SIZEOF_POINTER_def)

lemma custom_key_length: "length (custom_key k) = 26"
  by (simp add: custom_key_eq)

lemma unat_small: "n < 2 ^ 64 \<Longrightarrow> unat (word_of_nat n :: 64 word) = n"
  by (simp add: unat_of_nat)

lemma custom_key_inj:
  assumes "i < 2 ^ 62" "j < 2 ^ 62" "custom_key i = custom_key j"
  shows "i = j"
proof -
  have i: "2 * i + 1 < (2::nat) ^ 64" and j: "2 * j + 1 < (2::nat) ^ 64"
    using assms(1,2) by simp_all
  from assms(3) have "le_bytes 8 (unat (word_of_nat (2 * i + 1) :: 64 word))
      = le_bytes 8 (unat (word_of_nat (2 * j + 1) :: 64 word))"
    by (simp add: custom_key_eq)
  then have "le_bytes 8 (2 * i + 1) = le_bytes 8 (2 * j + 1)"
    by (simp only: unat_small [OF i] unat_small [OF j])
  then have "le_nat (le_bytes 8 (2 * i + 1)) = le_nat (le_bytes 8 (2 * j + 1))" by simp
  then have "2 * i + 1 = 2 * j + 1"
    using i j by (simp add: le_nat_le_bytes)
  then show ?thesis by simp
qed

lemma custom_value_methods:
  "getserdemethods (custom_value k) = Some (custom_ser k, custom_de k)"
  by (simp add: getserdemethods_def custom_value_def custom_ser_def custom_de_def)

lemma unat_custom_type_code: "unat (custom_type_code i) = (i + 9) mod 256"
proof -
  have "unat SERDE_CUSTOM = 9" by (simp add: SERDE_CUSTOM_def)
  then have "unat (custom_type_code i) = (i + 9) mod 2 ^ LENGTH(8)"
    unfolding custom_type_code_def by (simp only: unat_of_nat)
  then show ?thesis by simp
qed

lemma custom_type_code_inj:
  assumes "i < 256" "j < 256" "custom_type_code i = custom_type_code j"
  shows "i = j"
proof -
  have m: "n mod 256 = (if n < 256 then n else n - 256)" if "n < 512" for n :: nat
    using that by (simp add: le_mod_geq)
  from assms(3) have "(i + 9) mod 256 = (j + 9) mod 256"
    by (simp only: unat_custom_type_code [symmetric])
  then show ?thesis using assms(1,2) by (simp add: m split: if_splits)
qed

lemma update_fresh: "k \<notin> fst ` set al \<Longrightarrow> AList.update k v al = al @ [(k, v)]"
  by (induction al) auto


lemma custom_functions:
  "lua_type_of (custom_ser k) = LUA_TFUNCTION" "lua_type_of (custom_de k) = LUA_TFUNCTION"
  "lua_getupvalues (custom_ser k) = []" "lua_getupvalues (custom_de k) = []"
  by (simp_all add: custom_ser_def custom_de_def)

lemma registry_scan_None:
  "(\<forall>(t, s, d) \<in> set reg. \<not> lua_rawequal ser s) \<Longrightarrow> registry_scan reg ser de = None"
  by (induction reg) auto

lemma registered_step:
  assumes inv: "registered_inv n w" and n: "n \<le> 256"
  shows "cache_serde H0 w (custom_value n)
           = (Inr (custom_type_code n),
              w\<lparr>live := live w + 1,
                serde_cache := (serde_cache w)(n := Some (custom_key n)),
                serde_cache_types := (serde_cache_types w)(custom_key n := Some n),
                serde_cache_len := n + 1,
                registry := AList.update (custom_type_code n) (custom_ser n, custom_de n) (registry w)\<rparr>)"
proof -
  have n62: "n < 2 ^ 62" using n by simp
  have ne: "custom_ser i \<noteq> custom_ser n" if "i < n" for i
  proof
    assume "custom_ser i = custom_ser n"
    then have "(word_of_nat (2 * i + 1) :: 64 word) = word_of_nat (2 * n + 1)"
      by (simp only: custom_ser_def lua_value.inject)
    then have "unat (word_of_nat (2 * i + 1) :: 64 word) = unat (word_of_nat (2 * n + 1) :: 64 word)"
      by (rule arg_cong)
    moreover have "2 * i + 1 < (2::nat) ^ 64" "2 * n + 1 < (2::nat) ^ 64" using that n by simp_all
    ultimately have "2 * i + 1 = 2 * n + 1" by (simp only: unat_small)
    then show False using that by simp
  qed
  have miss: "registry_scan (registry w) (custom_ser n) (custom_de n) = None"
  proof (rule registry_scan_None, clarify)
    fix t s d assume "(t, s, d) \<in> set (registry w)" "lua_rawequal (custom_ser n) s"
    then obtain i where "i < n" "s = custom_ser i"
      using inv by (auto simp: registered_inv_def)
    with ne [of i] \<open>lua_rawequal (custom_ser n) s\<close> show False
      by (auto simp only: custom_ser_def lua_rawequal.simps lua_value.case)
  qed
  from cache_serde_slow [OF custom_value_methods custom_functions(1,2) miss, of H0]
  obtain sb where sb: "used sb = custom_key n"
    and c: "cache_serde H0 w (custom_value n)
              = cache_serde_publish H0 (w\<lparr>live := live w + 1\<rparr>) (custom_ser n) (custom_de n) sb"
    using never_fails_H0 by (auto simp: enomem_def custom_functions custom_key_def)
  have t: "serde_cache_types (w\<lparr>live := live w + 1\<rparr>) (used sb) = None"
    using inv n62 sb by (simp add: registered_inv_def)
  have l: "length (used sb) \<le> UINT16_MAX"
    by (simp add: sb custom_key_length UINT16_MAX_def)
  have "cache_serde H0 w (custom_value n)
     = (Inr (custom_type_code (serde_cache_len w)),
        (w\<lparr>live := live w + 1\<rparr>)
          \<lparr>serde_cache := (serde_cache w)(serde_cache_len w := Some (used sb)),
           serde_cache_types := (serde_cache_types w)(used sb := Some (serde_cache_len w)),
           serde_cache_len := serde_cache_len w + 1,
           registry := AList.update (custom_type_code (serde_cache_len w))
                         (custom_ser n, custom_de n) (registry w)\<rparr>)"
    unfolding c by (subst cache_serde_publish_new [OF l t]) (simp_all add: H0_def)
  then show ?thesis
    using inv by (simp add: registered_inv_def sb)
qed

lemma registered_inv: "n \<le> 256 \<Longrightarrow> registered_inv n (registered n)"
proof (induction n)
  case 0
  then show ?case by (simp add: registered_inv_def W0_def registered.simps)
next
  case (Suc n)
  then have inv: "registered_inv n (registered n)" and n: "n < 256" by simp_all
  have fresh: "custom_type_code n \<notin> fst ` set (registry (registered n))"
  proof
    assume "custom_type_code n \<in> fst ` set (registry (registered n))"
    then obtain i where "i < n" "custom_type_code i = custom_type_code n"
      using inv by (auto simp: registered_inv_def)
    with custom_type_code_inj [of i n] n show False by simp
  qed
  have inj: "custom_key i = custom_key n \<longleftrightarrow> i = n" if "i < 2 ^ 62" for i
    using custom_key_inj [of i n] that n by auto
  have reg: "AList.update (custom_type_code n) (custom_ser n, custom_de n) (registry (registered n))
               = registry (registered n) @ [(custom_type_code n, custom_ser n, custom_de n)]"
    by (rule update_fresh [OF fresh])
  have r: "registered (Suc n)
     = (registered n)\<lparr>live := live (registered n) + 1,
                serde_cache := (serde_cache (registered n))(n := Some (custom_key n)),
                serde_cache_types := (serde_cache_types (registered n))(custom_key n := Some n),
                serde_cache_len := n + 1,
                registry := registry (registered n) @ [(custom_type_code n, custom_ser n, custom_de n)]\<rparr>"
    by (simp only: registered.simps registered_step [OF inv n [THEN less_imp_le]] snd_conv reg)
  show ?case
    unfolding r using inv inj
    by (auto simp: registered_inv_def less_Suc_eq)
qed

section \<open>Type codes as signed bytes\<close>


lemma sint_byte: "sint (w :: 8 word) = (int (unat w) + 128) mod 256 - 128"
proof -
  have "sint w = signed_take_bit 7 (uint w)" by (simp add: sint_uint)
  also have "\<dots> = take_bit (Suc 7) (uint w + 2 ^ 7) - 2 ^ 7"
    by (rule signed_take_bit_eq_take_bit_shift)
  also have "\<dots> = (int (unat w) + 128) mod 256 - 128"
    by (simp only: take_bit_eq_mod uint_nat) simp
  finally show ?thesis .
qed

lemma sint_custom_type_code:
  "sint (custom_type_code i) = (int ((i + 9) mod 256) + 128) mod 256 - 128"
  by (simp only: sint_byte unat_custom_type_code)

lemma custom_type_code_ranges:
  "i \<le> 118 \<Longrightarrow> sint (custom_type_code i) = int i + 9"
  "119 \<le> i \<Longrightarrow> i \<le> 246 \<Longrightarrow> sint (custom_type_code i) = int i + 9 - 256"
  "247 \<le> i \<Longrightarrow> i \<le> 255 \<Longrightarrow> sint (custom_type_code i) = int i - 247"
proof -
  show "sint (custom_type_code i) = int i + 9" if "i \<le> 118"
    using that by (simp add: sint_custom_type_code)
  show "sint (custom_type_code i) = int i + 9 - 256" if "119 \<le> i" "i \<le> 246"
  proof -
    have a: "(i + 9) mod 256 = i + 9" using that by simp
    have "(int (i + 9) + 128) mod 256 = int (i + 9) + 128 - 256"
      using that by (simp add: mod_pos_geq)
    then show ?thesis by (simp add: sint_custom_type_code a)
  qed
  show "sint (custom_type_code i) = int i - 247" if "247 \<le> i" "i \<le> 255"
  proof -
    have a: "(i + 9) mod 256 = i + 9 - 256" using that by (simp add: le_mod_geq)
    have "int (i + 9 - 256) = int i - 247" using that by simp
    then show ?thesis using that by (simp add: sint_custom_type_code a)
  qed
qed

lemma sint_SERDE_CUSTOM: "sint SERDE_CUSTOM = 9"
  by (simp add: SERDE_CUSTOM_def)

lemma loadshared_negative_tag:
  assumes "sint c < 0"
  shows "loadshared (Suc n) H w (c # rest) = Null (lua_push w (LString (ascii ''invalid type'')))"
  using assms by (simp add: loadshared.simps loadsharedimpl.simps consume_def SIZEOF_TYPE_CODE_def)

lemma SERDE_CACHE_CAPACITY_eq: "SERDE_CACHE_CAPACITY = 256"
  by (simp add: SERDE_CACHE_CAPACITY_def SERDE_TYPE_CODE_MAX_def SIZEOF_TYPE_CODE_def)

lemma registered_code:
  "i \<le> 256 \<Longrightarrow> cache_serde H0 (registered i) (custom_value i)
      = (Inr (custom_type_code i), registered (Suc i))"
  using registered_step [OF registered_inv [of i]]
  by (simp add: registered.simps)

section \<open>The registry table of a state\<close>




lemma cache_serde_publish_success:
  assumes "cache_serde_publish H w ser de sb = (Inr t, w')"
  shows "\<exists>i. serde_cache_types w' (used sb) = Some i \<and> t = custom_type_code i \<and>
             registry w' = AList.update t (ser, de) (registry w)"
  using assms
  by (auto simp: cache_serde_publish_def serdebuf_finalize_def Let_def free_block_def
      split: if_splits option.splits)

section \<open>What the decoder leaves on the Lua stack\<close>


lemma setupvalues_loop_inv:
  assumes "bottom \<le> idx" "fidx \<le> length st" "1 \<le> bottom"
  shows "take (bottom - 1) (setupvalues_loop st idx fidx n env) = take (bottom - 1) st
       \<and> fidx \<le> length (setupvalues_loop st idx fidx n env)"
  using assms
proof (induction st idx fidx n env rule: setupvalues_loop.induct)
  case (1 st idx fidx n env)
  show ?case
  proof (cases "idx < fidx")
    case False
    then have eq: "setupvalues_loop st idx fidx n env = st"
      by (subst setupvalues_loop.simps) simp
    show ?thesis unfolding eq using "1.prems" by simp
  next
    case True
    show ?thesis
    proof (cases "n = 1 \<and> env")
      case t: True
      have eq: "setupvalues_loop st idx fidx n env = setupvalues_loop st idx fidx (n + 1) env"
        using True t by (subst setupvalues_loop.simps) simp
      from "1.IH"(1) [OF True t] "1.prems"
      show ?thesis unfolding eq by simp
    next
      case f: False
      define st' where "st' = lua_setupvalue (lua_pushvalue st idx) fidx n"
      have eq: "setupvalues_loop st idx fidx n env = setupvalues_loop st' (idx + 1) fidx (n + 1) env"
        using True f unfolding st'_def by (subst setupvalues_loop.simps) auto
      have len: "fidx \<le> length st'" and pre: "take (bottom - 1) st' = take (bottom - 1) st"
        using "1.prems" True
        by (auto simp: st'_def lua_setupvalue_def lua_pushvalue_def butlast_append
              split: option.splits)
      from "1.IH"(2) [OF True f, folded st'_def] "1.prems" len
      have "take (bottom - 1) (setupvalues_loop st' (idx + 1) fidx (n + 1) env) = take (bottom - 1) st'
             \<and> fidx \<le> length (setupvalues_loop st' (idx + 1) fidx (n + 1) env)"
        by simp
      then show ?thesis unfolding eq using pre by simp
    qed
  qed
qed

lemma setupvalues_stack:
  assumes "stack w2 = base @ xs @ [f]" "bottom = length base + 1"
  shows "\<exists>y. stack (setupvalues w2 bottom env) = base @ [y]"
proof -
  define st where "st = setupvalues_loop (stack w2) bottom (lua_gettop w2) 1 env"
  have "take (bottom - 1) st = take (bottom - 1) (stack w2) \<and> lua_gettop w2 \<le> length st"
    unfolding st_def
    by (rule setupvalues_loop_inv) (simp_all add: assms lua_gettop_def)
  then have pre: "take (length base) st = base" and len: "length base < length st"
    using assms by (simp_all add: lua_gettop_def)
  have "lua_settop (lua_insert st bottom) bottom = base @ [last st]"
    using pre len assms(2)
    by (simp add: lua_settop_def lua_insert_def take_butlast)
  then show ?thesis
    by (simp add: setupvalues_def Let_def st_def)
qed

section \<open>Evaluating the encoder and the decoder\<close>


lemmas enc_eval = serialize_def serdebuf_init_def serdebuf_destroy_def serdebuf_finalize_def
  free_block_def serdebuf_serialize.simps serdebuf_serialize_upvalues.simps cache_serde.simps
  serde_type_encode_def serde_type_def getserdemethods_def serde_type_size_def serde_codes
  serdebuf_append_def serdebuf_resize_def serdebuf_size_def serdebuf_roundup_def
  serdebuf_flags_def roundup2_def mempcpy_def cur_def store_at_def placeholder_def
  SIZEOF_SIZE_T_def SIZEOF_UNSIGNED_def SIZEOF_POINTER_def SIZEOF_LUA_INTEGER_def
  SIZEOF_LUA_NUMBER_def SIZEOF_BOOL_def SIZEOF_TYPE_CODE_def CK_MD_CACHELINE_def
  CK_MD_PAGESIZE_def Let_def

lemmas dec_eval = loadshared.simps loadsharedimpl.simps loadupvalues_loop.simps consume_def
  loadclosure_def call_deserialize_def setupvalues_def setupvalues_loop.simps lua_push_def
  lua_gettop_def lua_pushvalue_def lua_setupvalue_def lua_insert_def lua_settop_def drop_top_def
  le_nat_le_bytes serde_codes
  SIZEOF_SIZE_T_def SIZEOF_UNSIGNED_def SIZEOF_POINTER_def SIZEOF_LUA_INTEGER_def
  SIZEOF_LUA_NUMBER_def SIZEOF_BOOL_def SIZEOF_TYPE_CODE_def Let_def

section \<open>Decoding what the encoder wrote\<close>


lemma consume_append: "length a = k \<Longrightarrow> consume (a @ r) k = Some (r, a)"
  by (simp add: consume_def)

lemma consume_le_bytes [simp]: "consume (le_bytes k n @ r) k = Some (r, le_bytes k n)"
  by (simp add: consume_def)

lemma consume_Some:
  "consume p k = Some (p', bs) \<longleftrightarrow> p = bs @ p' \<and> length bs = k"
  by (auto simp: consume_def)

lemma consume_None: "consume p k = None \<longleftrightarrow> length p < k"
  by (auto simp: consume_def)

lemma word_of_nat_unat_mod:
  "(word_of_nat (unat (x :: 64 word) mod 18446744073709551616) :: 64 word) = x"
proof -
  have "unat x < 2 ^ 64" using unsigned_less [of x] by simp
  then have "unat x mod 18446744073709551616 = unat x" by simp
  then show ?thesis by simp
qed

lemma loadsharedimpl_scalar:
  assumes "lua_type_of v \<in> {LUA_TNIL, LUA_TBOOLEAN, LUA_TLIGHTUSERDATA, LUA_TNUMBER, LUA_TSTRING}"
    and "length (wire_scalar v) < 2 ^ 64"
  shows "loadsharedimpl (Suc n) H w (wire_scalar v @ rest) env = Next (lua_push w v) rest env"
proof (cases v)
  case (LString s)
  then have "length s < 2 ^ 64" using assms(2) by simp
  then have "length s mod 256 ^ 8 = length s" by simp
  then show ?thesis
    using LString
    by (simp add: loadsharedimpl.simps consume_def serde_codes le_nat_le_bytes
          SIZEOF_TYPE_CODE_def SIZEOF_SIZE_T_def)
qed (use assms in \<open>simp_all add: loadsharedimpl.simps consume_def serde_codes le_nat_le_bytes
          word_of_nat_unat_mod
          SIZEOF_TYPE_CODE_def SIZEOF_SIZE_T_def SIZEOF_BOOL_def SIZEOF_POINTER_def
          SIZEOF_LUA_INTEGER_def SIZEOF_LUA_NUMBER_def\<close>)

lemma loadsharedimpl_env:
  "loadsharedimpl (Suc n) H w (SERDE_ENV # rest) env = Next w rest True"
  by (simp add: loadsharedimpl.simps consume_def serde_codes SIZEOF_TYPE_CODE_def)


lemma wire_upvalue_nonempty:
  "simple_upvalue u \<Longrightarrow> wire_upvalue u \<noteq> []"
  by (cases u, cases "snd u") (auto simp: wire_upvalue_def simple_upvalue_def)

lemma length_wire_upvalues_ge:
  "list_all simple_upvalue ups \<Longrightarrow> length ups \<le> length (concat (map wire_upvalue ups))"
proof (induction ups)
  case Nil
  then show ?case by simp
next
  case (Cons u ups)
  then have "wire_upvalue u \<noteq> []" by (simp add: wire_upvalue_nonempty)
  then have "1 \<le> length (wire_upvalue u)" by (cases "wire_upvalue u") simp_all
  then show ?case using Cons by simp
qed

lemma loadupvalues_loop_wire:
  assumes "list_all simple_upvalue ups" "length (concat (map wire_upvalue ups)) < 2 ^ 64"
  shows "loadupvalues_loop (Suc n) H w (concat (map wire_upvalue ups) @ rest) env (length ups)
       = Next (w\<lparr>stack := stack w @ map snd (filter (\<lambda>u. fst u \<noteq> ''_ENV'') ups)\<rparr>) rest
              (env \<or> (\<exists>u \<in> set ups. fst u = ''_ENV''))"
  using assms
proof (induction ups arbitrary: w env)
  case Nil
  then show ?case by (simp add: loadupvalues_loop.simps)
next
  case (Cons u ups)
  have l: "length (concat (map wire_upvalue ups)) < 2 ^ 64" using Cons.prems by simp
  have s: "list_all simple_upvalue ups" using Cons.prems by simp
  show ?case
  proof (cases "fst u = ''_ENV''")
    case True
    then show ?thesis
      using Cons.IH [OF s l, of w True]
      by (simp add: loadupvalues_loop.simps wire_upvalue_def loadsharedimpl_env)
  next
    case False
    then have t: "lua_type_of (snd u) \<in> {LUA_TNIL, LUA_TBOOLEAN, LUA_TLIGHTUSERDATA, LUA_TNUMBER, LUA_TSTRING}"
      using Cons.prems by (simp add: simple_upvalue_def)
    have b: "length (wire_scalar (snd u)) < 2 ^ 64"
      using Cons.prems False by (simp add: wire_upvalue_def)
    show ?thesis
      using False Cons.IH [OF s l, of "lua_push w (snd u)" env]
      by (simp add: loadupvalues_loop.simps wire_upvalue_def loadsharedimpl_scalar [OF t b]
            lua_push_def)
  qed
qed

lemma serde_cache_setupvalues [simp]: "serde_cache (setupvalues w b e) = serde_cache w"
  by (simp add: setupvalues_def Let_def)

lemma wire_function:
  assumes "lua_type_of f = LUA_TFUNCTION"
  shows "\<exists>t tl. (t = SERDE_CCLOSURE \<or> t = SERDE_LCLOSURE) \<and>
      wire f = t # le_bytes SIZEOF_UNSIGNED (length (lua_getupvalues f))
                 @ concat (map wire_upvalue (lua_getupvalues f)) @ tl \<and>
      (t = SERDE_CCLOSURE \<longrightarrow> length tl = SIZEOF_POINTER) \<and>
      (t = SERDE_LCLOSURE \<longrightarrow> (\<exists>bs. tl = le_bytes SIZEOF_SIZE_T (length bs) @ bs))"
  using assms by (cases f) (auto simp: wire_upvalues_def serde_codes)

lemma loadsharedimpl_function:
  assumes f: "lua_type_of f = LUA_TFUNCTION"
    and s: "list_all simple_upvalue (lua_getupvalues f)"
    and l: "length (wire f) < 2 ^ 32"
  shows "(\<exists>w' y. loadsharedimpl (Suc (Suc n)) H w (wire f @ rest) env = Next w' rest env
              \<and> stack w' = stack w @ [y] \<and> serde_cache w' = serde_cache w)
       \<or> (\<exists>w'. loadsharedimpl (Suc (Suc n)) H w (wire f @ rest) env = Null w')"
proof -
  define ups where "ups = lua_getupvalues f"
  define body where "body = concat (map wire_upvalue ups)"
  from wire_function [OF f] obtain t tl where
    t: "t = SERDE_CCLOSURE \<or> t = SERDE_LCLOSURE"
    and wf: "wire f = t # le_bytes SIZEOF_UNSIGNED (length ups) @ body @ tl"
    and tc: "t = SERDE_CCLOSURE \<longrightarrow> length tl = SIZEOF_POINTER"
    and tl: "t = SERDE_LCLOSURE \<longrightarrow> (\<exists>bs. tl = le_bytes SIZEOF_SIZE_T (length bs) @ bs)"
    unfolding ups_def body_def by blast
  have lb: "length body < 2 ^ 32" using l wf by simp
  then have lb64: "length body < 2 ^ 64" by simp
  have "length ups \<le> length body"
    unfolding body_def using s ups_def by (simp add: length_wire_upvalues_ge)
  then have lu: "length ups < 2 ^ 32" using lb by simp
  then have cnt: "le_nat (le_bytes SIZEOF_UNSIGNED (length ups)) = length ups"
    by (simp add: le_nat_le_bytes SIZEOF_UNSIGNED_def)
  define w1 where "w1 = w\<lparr>stack := stack w @ map snd (filter (\<lambda>u. fst u \<noteq> ''_ENV'') ups)\<rparr>"
  define env1 where "env1 = (\<exists>u \<in> set ups. fst u = ''_ENV'')"
  have loop: "loadupvalues_loop (Suc n) H w (body @ tl @ rest) False (length ups)
                = Next w1 (tl @ rest) env1"
    using loadupvalues_loop_wire [OF s [folded ups_def] lb64 [unfolded body_def], of n H w "tl @ rest" False]
    by (simp add: body_def w1_def env1_def)
  from t show ?thesis
  proof
    assume c: "t = SERDE_CCLOSURE"
    have ltl: "length tl = SIZEOF_POINTER" using tc c by simp
    define w2 where "w2 = lua_push w1 (LCFunction (word_of_nat (le_nat tl)))"
    have st: "stack w2 = stack w @ map snd (filter (\<lambda>u. fst u \<noteq> ''_ENV'') ups)
                            @ [LCFunction (word_of_nat (le_nat tl))]"
      by (simp add: w2_def w1_def lua_push_def)
    from setupvalues_stack [OF st, of "lua_gettop w + 1" env1]
    obtain y where y: "stack (setupvalues w2 (lua_gettop w + 1) env1) = stack w @ [y]"
      by (auto simp: lua_gettop_def)
    have "loadsharedimpl (Suc (Suc n)) H w (wire f @ rest) env
            = Next (setupvalues w2 (lua_gettop w + 1) env1) rest env"
      unfolding wf c
      by (simp add: loadsharedimpl.simps consume_def serde_codes SIZEOF_TYPE_CODE_def
            cnt [unfolded SIZEOF_UNSIGNED_def] loop [unfolded c] ltl w2_def
            SIZEOF_UNSIGNED_def)
    moreover have "serde_cache (setupvalues w2 (lua_gettop w + 1) env1) = serde_cache w"
      by (simp add: w2_def w1_def lua_push_def)
    ultimately show ?thesis using y by blast
  next
    assume c: "t = SERDE_LCLOSURE"
    then obtain bs where bs: "tl = le_bytes SIZEOF_SIZE_T (length bs) @ bs" using tl by blast
    have "length bs < 2 ^ 32" using l wf bs by simp
    then have "length bs < 2 ^ 64" by simp
    then have lenbs: "le_nat (le_bytes SIZEOF_SIZE_T (length bs)) = length bs"
      by (simp add: le_nat_le_bytes SIZEOF_SIZE_T_def)
    show ?thesis
    proof (cases "undump H bs")
      case (Inl err)
      have "loadsharedimpl (Suc (Suc n)) H w (wire f @ rest) env = Null (lua_push w1 err)"
        unfolding wf c bs
        by (simp add: loadsharedimpl.simps consume_def serde_codes SIZEOF_TYPE_CODE_def
            cnt [unfolded SIZEOF_UNSIGNED_def] loop [unfolded bs SIZEOF_SIZE_T_def append_assoc] loadclosure_def lenbs Inl
            lenbs [unfolded SIZEOF_SIZE_T_def] SIZEOF_UNSIGNED_def SIZEOF_SIZE_T_def)
      then show ?thesis by blast
    next
      case (Inr cn)
      obtain chunks names where cn: "cn = (chunks, names)" by (cases cn)
      define g where "g = LLClosure (next_id w1) chunks (loaded_upvalues (globals w1) names)"
      define w2 where "w2 = lua_push (w1\<lparr>next_id := next_id w1 + 1\<rparr>) g"
      have st: "stack w2 = stack w @ map snd (filter (\<lambda>u. fst u \<noteq> ''_ENV'') ups) @ [g]"
        by (simp add: w2_def w1_def lua_push_def)
      from setupvalues_stack [OF st, of "lua_gettop w + 1" env1]
      obtain y where y: "stack (setupvalues w2 (lua_gettop w + 1) env1) = stack w @ [y]"
        by (auto simp: lua_gettop_def)
      have "loadsharedimpl (Suc (Suc n)) H w (wire f @ rest) env
            = Next (setupvalues w2 (lua_gettop w + 1) env1) rest env"
        unfolding wf c bs
        by (simp add: loadsharedimpl.simps consume_def serde_codes SIZEOF_TYPE_CODE_def
            cnt [unfolded SIZEOF_UNSIGNED_def] loop [unfolded bs SIZEOF_SIZE_T_def append_assoc] loadclosure_def lenbs Inr cn
            lenbs [unfolded SIZEOF_SIZE_T_def] SIZEOF_UNSIGNED_def SIZEOF_SIZE_T_def w2_def g_def)
      moreover have "serde_cache (setupvalues w2 (lua_gettop w + 1) env1) = serde_cache w"
        by (simp add: w2_def w1_def lua_push_def)
      ultimately show ?thesis using y by blast
    qed
  qed
qed

section \<open>What a call of the decoder does to the stack and the pointer\<close>


lemma loadsharedimpl_Nil: "loadsharedimpl (Suc n) H w [] env = OutOfBounds"
  by (simp add: loadsharedimpl.simps consume_def SIZEOF_TYPE_CODE_def)

lemma serde_cache_call_deserialize:
  "call_deserialize H w ser de span p env = Next w' p' env' \<Longrightarrow>
     p' = p \<and> env' = env \<and> (\<exists>x. stack w' = stack w @ [x]) \<and> serde_cache w' = serde_cache w"
  by (auto simp: call_deserialize_def lua_push_def split: sum.splits)

lemma loadclosure_next:
  "loadclosure H w p env = Next w' p' env' \<Longrightarrow>
     (\<exists>c. c \<noteq> [] \<and> p = c @ p') \<and> env' = env \<and> (\<exists>x. stack w' = stack w @ [x])
     \<and> serde_cache w' = serde_cache w"
proof -
  assume a: "loadclosure H w p env = Next w' p' env'"
  then obtain p1 bs where c: "consume p SIZEOF_SIZE_T = Some (p1, bs)"
    by (auto simp: loadclosure_def split: option.splits)
  then have p: "p = bs @ p1" and l: "length bs = SIZEOF_SIZE_T" by (auto simp: consume_Some)
  from a c have p': "p' = drop (le_nat bs) p1" and r: "env' = env"
     "\<exists>x. stack w' = stack w @ [x]" "serde_cache w' = serde_cache w"
    by (auto simp: loadclosure_def Let_def lua_push_def split: if_splits sum.splits prod.splits)
  have "p = (bs @ take (le_nat bs) p1) @ p'" using p p' by simp
  moreover have "bs @ take (le_nat bs) p1 \<noteq> []" using l by (auto simp: SIZEOF_SIZE_T_def)
  ultimately have "\<exists>c. c \<noteq> [] \<and> p = c @ p'" by blast
  then show ?thesis using r by simp
qed



lemma sint_tags [simp]:
  "\<not> sint SERDE_ENV < 0" "\<not> sint SERDE_NIL < 0" "\<not> sint SERDE_BOOLEAN < 0"
  "\<not> sint SERDE_LIGHTUSERDATA < 0" "\<not> sint SERDE_INTEGER < 0" "\<not> sint SERDE_NUMBER < 0"
  "\<not> sint SERDE_STRING < 0" "\<not> sint SERDE_CCLOSURE < 0" "\<not> sint SERDE_LCLOSURE < 0"
  by (simp_all add: serde_codes)

lemma consume_tag: "consume (t # p1) SIZEOF_TYPE_CODE = Some (p1, [t])"
  by (simp add: consume_def SIZEOF_TYPE_CODE_def)

lemma loadsharedimpl_negative:
  "sint t < 0 \<Longrightarrow>
     loadsharedimpl (Suc n) H w (t # p1) env = Null (lua_push w (LString (ascii ''invalid type'')))"
  by (simp add: loadsharedimpl.simps consume_def SIZEOF_TYPE_CODE_def)

lemma loadsharedimpl_nil:
  "loadsharedimpl (Suc n) H w (SERDE_NIL # p1) env = Next (lua_push w LNil) p1 env"
  by (simp add: loadsharedimpl.simps consume_def SIZEOF_TYPE_CODE_def serde_codes)

lemma loadsharedimpl_boolean:
  "loadsharedimpl (Suc n) H w (SERDE_BOOLEAN # p1) env =
     (case consume p1 SIZEOF_BOOL of
        None \<Rightarrow> OutOfBounds
      | Some (p2, bs) \<Rightarrow> Next (lua_push w (LBoolean (le_nat bs \<noteq> 0))) p2 env)"
  by (simp add: loadsharedimpl.simps consume_tag serde_codes)

lemma loadsharedimpl_lightuserdata:
  "loadsharedimpl (Suc n) H w (SERDE_LIGHTUSERDATA # p1) env =
     (case consume p1 SIZEOF_POINTER of
        None \<Rightarrow> OutOfBounds
      | Some (p2, bs) \<Rightarrow> Next (lua_push w (LLightUserdata (word_of_nat (le_nat bs)))) p2 env)"
  by (simp add: loadsharedimpl.simps consume_tag serde_codes)

lemma loadsharedimpl_number:
  "loadsharedimpl (Suc n) H w (SERDE_NUMBER # p1) env =
     (case consume p1 SIZEOF_LUA_NUMBER of
        None \<Rightarrow> OutOfBounds
      | Some (p2, bs) \<Rightarrow> Next (lua_push w (LNumber (word_of_nat (le_nat bs)))) p2 env)"
  by (simp add: loadsharedimpl.simps consume_tag serde_codes)

lemma loadsharedimpl_integer:
  "loadsharedimpl (Suc n) H w (SERDE_INTEGER # p1) env =
     (case consume p1 SIZEOF_LUA_INTEGER of
        None \<Rightarrow> OutOfBounds
      | Some (p2, bs) \<Rightarrow> Next (lua_push w (LInteger (word_of_nat (le_nat bs)))) p2 env)"
  by (simp add: loadsharedimpl.simps consume_tag serde_codes)

lemma loadsharedimpl_string:
  "loadsharedimpl (Suc n) H w (SERDE_STRING # p1) env =
     (case consume p1 SIZEOF_SIZE_T of
        None \<Rightarrow> OutOfBounds
      | Some (p2, bs) \<Rightarrow>
          (case consume p2 (le_nat bs) of
             None \<Rightarrow> OutOfBounds
           | Some (p3, str) \<Rightarrow> Next (lua_push w (LString str)) p3 env))"
  by (simp add: loadsharedimpl.simps consume_tag serde_codes)

lemma loadsharedimpl_lclosure:
  "loadsharedimpl (Suc n) H w (SERDE_LCLOSURE # p1) env =
     (case consume p1 SIZEOF_UNSIGNED of
        None \<Rightarrow> OutOfBounds
      | Some (p2, bs) \<Rightarrow>
          (case loadupvalues_loop n H w p2 False (le_nat bs) of
             Next w1 p3 env1 \<Rightarrow>
               (case loadclosure H w1 p3 env1 of
                  Next w2 p4 _ \<Rightarrow> Next (setupvalues w2 (Suc (lua_gettop w)) env1) p4 env
                | r \<Rightarrow> r)
           | r \<Rightarrow> r))"
  by (simp add: loadsharedimpl.simps consume_tag serde_codes)

lemma loadsharedimpl_cclosure:
  "loadsharedimpl (Suc n) H w (SERDE_CCLOSURE # p1) env =
     (case consume p1 SIZEOF_UNSIGNED of
        None \<Rightarrow> OutOfBounds
      | Some (p2, bs) \<Rightarrow>
          (case loadupvalues_loop n H w p2 False (le_nat bs) of
             Next w1 p3 env1 \<Rightarrow>
               (case consume p3 SIZEOF_POINTER of
                  None \<Rightarrow> OutOfBounds
                | Some (p4, fs) \<Rightarrow>
                    Next (setupvalues (lua_push w1 (LCFunction (word_of_nat (le_nat fs))))
                            (Suc (lua_gettop w)) env1) p4 env)
           | r \<Rightarrow> r))"
  by (simp add: loadsharedimpl.simps consume_tag serde_codes)

lemma loadsharedimpl_custom:
  assumes "\<not> sint t < 0"
    and "t \<notin> {SERDE_ENV, SERDE_NIL, SERDE_BOOLEAN, SERDE_LIGHTUSERDATA, SERDE_NUMBER,
               SERDE_INTEGER, SERDE_STRING, SERDE_LCLOSURE, SERDE_CCLOSURE}"
  shows "loadsharedimpl (Suc n) H w (t # p1) env =
     (case consume p1 SIZEOF_SIZE_T of
        None \<Rightarrow> OutOfBounds
      | Some (p2, bs) \<Rightarrow>
          (let sz = le_nat bs
           in if \<not> fmemopen_ok H sz then Null (lua_push w (LString (ascii ''fmemopen'')))
              else if sz > length p2 then OutOfBounds
              else
                (let span = take sz p2;
                     w1 = lua_push w (LStream span)
                 in case map_of (registry w1) t of
                      Some (ser, de) \<Rightarrow> call_deserialize H w ser de span p2 env
                    | None \<Rightarrow>
                        (case serde_cache w1 (nat (sint t) - unat SERDE_CUSTOM) of
                           None \<Rightarrow> OutOfBounds
                         | Some serde \<Rightarrow>
                             (case loadshared n H (lua_push (lua_push w1 LCache) (LSerde LNil LNil)) serde of
                                Next w2 serde1 _ \<Rightarrow>
                                  (case loadshared n H w2 serde1 of
                                     Next w3 _ _ \<Rightarrow>
                                       (let de = last (stack w3);
                                            ser = last (butlast (stack w3))
                                        in call_deserialize H
                                             (w3\<lparr>stack := drop_top 5 (stack w3),
                                                 registry := AList.update t (ser, de) (registry w3)\<rparr>)
                                             ser de span p2 env)
                                   | r \<Rightarrow> r)
                              | r \<Rightarrow> r)))))"
  using assms
  by (simp add: loadsharedimpl.simps consume_tag)


lemma consume_next:
  "consume p k = Some (p', bs) \<Longrightarrow> p = bs @ p'"
  by (auto simp: consume_def split: if_splits)

lemma loadsharedimpl_next:
  assumes "loadsharedimpl n H w p env = Next w' p' env'"
  shows "(\<exists>c. c \<noteq> [] \<and> p = c @ p') \<and> serde_cache w' = serde_cache w \<and>
         ((stack w' = stack w \<and> env') \<or> (\<exists>x. stack w' = stack w @ [x] \<and> env' = env))"
  using assms
proof (induction n arbitrary: w p env w' p' env')
  case 0
  then show ?case by (simp add: loadsharedimpl.simps)
next
  case (Suc n)
  note IH = Suc.IH and prems = Suc.prems
  have loop: "(\<exists>c. q = c @ q') \<and> serde_cache v' = serde_cache v \<and> (\<exists>xs. stack v' = stack v @ xs)"
    if "loadupvalues_loop n H v q e count = Next v' q' e'" for v q e count v' q' e'
    using that
  proof (induction count arbitrary: v q e)
    case 0
    then show ?case by (simp add: loadupvalues_loop.simps)
  next
    case (Suc count)
    from Suc.prems obtain v1 q1 e1 where
      a: "loadsharedimpl n H v q e = Next v1 q1 e1" and
      b: "loadupvalues_loop n H v1 q1 e1 count = Next v' q' e'"
      by (auto simp: loadupvalues_loop.simps split: load.splits)
    from Suc.IH [OF b] IH [OF a] show ?case by auto
  qed
  have shared: "(\<exists>c. c \<noteq> [] \<and> q = c @ q') \<and> serde_cache v' = serde_cache v \<and>
                (\<exists>x. stack v' = stack v @ [x]) \<and> \<not> e'"
    if "loadshared n H v q = Next v' q' e'" for v q v' q' e'
  proof -
    from that have a: "loadsharedimpl n H v q (junk_env H) = Next v' q' e'" and e: "\<not> e'"
      by (auto simp: loadshared.simps split: load.splits if_splits)
    from IH [OF a] e show ?thesis by auto
  qed
  show ?case
  proof (cases p)
    case Nil
    with prems show ?thesis by (simp add: loadsharedimpl_Nil)
  next
    case (Cons t p1)
    note a = prems [unfolded Cons]
    have pre: "\<exists>c. c \<noteq> [] \<and> p = c @ q" if "p1 = d @ q" for d q
    proof -
      have "p = (t # d) @ q" using that Cons by simp
      then show ?thesis by blast
    qed
    consider (neg) "sint t < 0" | (env) "t = SERDE_ENV" | (nil) "t = SERDE_NIL"
      | (bool) "t = SERDE_BOOLEAN" | (lud) "t = SERDE_LIGHTUSERDATA" | (num) "t = SERDE_NUMBER"
      | (int) "t = SERDE_INTEGER" | (str) "t = SERDE_STRING"
      | (lcl) "t = SERDE_LCLOSURE" | (ccl) "t = SERDE_CCLOSURE"
      | (custom) "\<not> sint t < 0" "t \<notin> {SERDE_ENV, SERDE_NIL, SERDE_BOOLEAN, SERDE_LIGHTUSERDATA,
                       SERDE_NUMBER, SERDE_INTEGER, SERDE_STRING, SERDE_LCLOSURE, SERDE_CCLOSURE}"
      by blast
    then show ?thesis
    proof cases
      case neg
      with a show ?thesis by (simp add: loadsharedimpl_negative)
    next
      case env
      with a pre [of "[]" p1] show ?thesis by (simp add: loadsharedimpl_env)
    next
      case nil
      with a pre [of "[]" p1] show ?thesis by (auto simp: loadsharedimpl_nil lua_push_def)
    next
      case bool
      from a bool obtain bs where "consume p1 SIZEOF_BOOL = Some (p', bs)"
        "w' = lua_push w (LBoolean (le_nat bs \<noteq> 0))" "env' = env"
        by (auto simp: loadsharedimpl_boolean split: option.splits)
      with pre [OF consume_next] show ?thesis by (auto simp: lua_push_def)
    next
      case lud
      from a lud obtain bs where "consume p1 SIZEOF_POINTER = Some (p', bs)"
        "w' = lua_push w (LLightUserdata (word_of_nat (le_nat bs)))" "env' = env"
        by (auto simp: loadsharedimpl_lightuserdata split: option.splits)
      with pre [OF consume_next] show ?thesis by (auto simp: lua_push_def)
    next
      case num
      from a num obtain bs where "consume p1 SIZEOF_LUA_NUMBER = Some (p', bs)"
        "w' = lua_push w (LNumber (word_of_nat (le_nat bs)))" "env' = env"
        by (auto simp: loadsharedimpl_number split: option.splits)
      with pre [OF consume_next] show ?thesis by (auto simp: lua_push_def)
    next
      case int
      from a int obtain bs where "consume p1 SIZEOF_LUA_INTEGER = Some (p', bs)"
        "w' = lua_push w (LInteger (word_of_nat (le_nat bs)))" "env' = env"
        by (auto simp: loadsharedimpl_integer split: option.splits)
      with pre [OF consume_next] show ?thesis by (auto simp: lua_push_def)
    next
      case str
      from a str obtain p2 bs s where c: "consume p1 SIZEOF_SIZE_T = Some (p2, bs)"
        "consume p2 (le_nat bs) = Some (p', s)"
        and r: "w' = lua_push w (LString s)" "env' = env"
        by (auto simp: loadsharedimpl_string split: option.splits)
      have "p1 = (bs @ s) @ p'" using c by (auto dest!: consume_next)
      from pre [OF this] r show ?thesis by (auto simp: lua_push_def)
    next
      case lcl
      from a lcl obtain p2 bs w1 p3 env1 w2 e2 where
        c: "consume p1 SIZEOF_UNSIGNED = Some (p2, bs)"
        and l: "loadupvalues_loop n H w p2 False (le_nat bs) = Next w1 p3 env1"
        and cl: "loadclosure H w1 p3 env1 = Next w2 p' e2"
        and r: "w' = setupvalues w2 (Suc (lua_gettop w)) env1" "env' = env"
        by (auto simp: loadsharedimpl_lclosure split: option.splits load.splits)
      from loop [OF l] obtain c1 xs where l1: "p2 = c1 @ p3" "serde_cache w1 = serde_cache w"
        "stack w1 = stack w @ xs" by blast
      from loadclosure_next [OF cl] obtain c2 f where l2: "p3 = c2 @ p'"
        "serde_cache w2 = serde_cache w1" "stack w2 = stack w1 @ [f]" by blast
      have st: "stack w2 = stack w @ xs @ [f]" using l1 l2 by simp
      from setupvalues_stack [OF st, of "Suc (lua_gettop w)" env1]
      obtain y where y: "stack w' = stack w @ [y]" unfolding r by (auto simp: lua_gettop_def)
      have "p1 = (bs @ c1 @ c2) @ p'" using consume_next [OF c] l1 l2 by simp
      from pre [OF this] y r l1 l2 show ?thesis by simp
    next
      case ccl
      from a ccl obtain p2 bs w1 p3 env1 fs where
        c: "consume p1 SIZEOF_UNSIGNED = Some (p2, bs)"
        and l: "loadupvalues_loop n H w p2 False (le_nat bs) = Next w1 p3 env1"
        and cf: "consume p3 SIZEOF_POINTER = Some (p', fs)"
        and r: "w' = setupvalues (lua_push w1 (LCFunction (word_of_nat (le_nat fs))))
                       (Suc (lua_gettop w)) env1" "env' = env"
        by (auto simp: loadsharedimpl_cclosure split: option.splits load.splits)
      from loop [OF l] obtain c1 xs where l1: "p2 = c1 @ p3" "serde_cache w1 = serde_cache w"
        "stack w1 = stack w @ xs" by blast
      have st: "stack (lua_push w1 (LCFunction (word_of_nat (le_nat fs))))
                  = stack w @ xs @ [LCFunction (word_of_nat (le_nat fs))]"
        using l1 by (simp add: lua_push_def)
      from setupvalues_stack [OF st, of "Suc (lua_gettop w)" env1]
      obtain y where y: "stack w' = stack w @ [y]" unfolding r by (auto simp: lua_gettop_def)
      have "p1 = (bs @ c1 @ fs) @ p'" using consume_next [OF c] consume_next [OF cf] l1 by simp
      from pre [OF this] y r l1 show ?thesis by (simp add: lua_push_def)
    next
      case custom
      note b = a [unfolded loadsharedimpl_custom [OF custom]]
      from b obtain p2 bs where c: "consume p1 SIZEOF_SIZE_T = Some (p2, bs)"
        by (auto split: option.splits)
      define span where "span = take (le_nat bs) p2"
      define w1 where "w1 = lua_push w (LStream span)"
      have pp: "\<exists>c. c \<noteq> [] \<and> p = c @ p2" using pre [OF consume_next [OF c]] .
      show ?thesis
      proof (cases "map_of (registry w1) t")
        case (Some sd)
        obtain ser de where sd: "sd = (ser, de)" by (cases sd)
        from b c Some sd have "call_deserialize H w ser de span p2 env = Next w' p' env'"
          by (auto simp: Let_def span_def w1_def split: if_splits)
        from serde_cache_call_deserialize [OF this] pp show ?thesis by auto
      next
        case None
        from b c None obtain serde w2 serde1 e2 w3 q3 e3 where
          s1: "loadshared n H (lua_push (lua_push w1 LCache) (LSerde LNil LNil)) serde
                 = Next w2 serde1 e2"
          and s2: "loadshared n H w2 serde1 = Next w3 q3 e3"
          and cd: "call_deserialize H
                     (w3\<lparr>stack := drop_top 5 (stack w3),
                         registry := AList.update t (last (butlast (stack w3)), last (stack w3))
                                       (registry w3)\<rparr>)
                     (last (butlast (stack w3))) (last (stack w3)) span p2 env = Next w' p' env'"
          by (auto simp: Let_def span_def w1_def split: if_splits option.splits load.splits)
        from shared [OF s1] obtain x where
          x: "stack w2 = stack w @ [LStream span, LCache, LSerde LNil LNil, x]"
             "serde_cache w2 = serde_cache w"
          by (auto simp: w1_def lua_push_def)
        from shared [OF s2] x obtain y where
          y: "stack w3 = stack w @ [LStream span, LCache, LSerde LNil LNil, x, y]"
             "serde_cache w3 = serde_cache w"
          by auto
        have d: "drop_top 5 (stack w3) = stack w" using y by (simp add: drop_top_def)
        from serde_cache_call_deserialize [OF cd] pp d y show ?thesis by auto
      qed
    qed
  qed
qed

section \<open>The decoder returns\<close>


lemma loadupvalues_loop_next:
  assumes "loadupvalues_loop n H w p env count = Next w' p' env'"
  shows "(\<exists>c. p = c @ p') \<and> serde_cache w' = serde_cache w \<and> (\<exists>xs. stack w' = stack w @ xs)"
  using assms
proof (induction count arbitrary: w p env)
  case 0
  then show ?case by (simp add: loadupvalues_loop.simps)
next
  case (Suc count)
  from Suc.prems obtain w1 p1 env1 where
    a: "loadsharedimpl n H w p env = Next w1 p1 env1" and
    b: "loadupvalues_loop n H w1 p1 env1 count = Next w' p' env'"
    by (auto simp: loadupvalues_loop.simps split: load.splits)
  from Suc.IH [OF b] loadsharedimpl_next [OF a] show ?case by auto
qed

lemma loadshared_next:
  assumes "loadshared n H w p = Next w' p' env'"
  shows "(\<exists>c. c \<noteq> [] \<and> p = c @ p') \<and> serde_cache w' = serde_cache w \<and>
         (\<exists>x. stack w' = stack w @ [x]) \<and> \<not> env'"
proof -
  from assms have a: "loadsharedimpl n H w p (junk_env H) = Next w' p' env'" and e: "\<not> env'"
    by (auto simp: loadshared.simps split: load.splits if_splits)
  from loadsharedimpl_next [OF a] e show ?thesis by auto
qed

lemma loadshared_function:
  assumes f: "lua_type_of f = LUA_TFUNCTION"
    and s: "list_all simple_upvalue (lua_getupvalues f)"
    and l: "length (wire f) < 2 ^ 32"
  shows "(\<exists>w'. loadshared (Suc (Suc n)) H w (wire f @ rest) = Next w' rest False)
       \<or> (\<exists>w'. loadshared (Suc (Suc n)) H w (wire f @ rest) = Null w')"
  using loadsharedimpl_function [OF f s l, of n H w rest "junk_env H"]
  by (auto simp: loadshared.simps [of "Suc (Suc n)"])

lemma slot_decodes:
  assumes sw: "slots_wired w" and slot: "serde_cache w i = Some serde"
  shows "(\<exists>w'. loadshared (Suc (Suc n)) H v serde = Null w')
       \<or> (\<exists>w2 serde1. loadshared (Suc (Suc n)) H v serde = Next w2 serde1 False \<and>
            (\<forall>v2. (\<exists>w'. loadshared (Suc (Suc n)) H v2 serde1 = Null w')
                 \<or> (\<exists>w3. loadshared (Suc (Suc n)) H v2 serde1 = Next w3 [] False)))"
proof -
  from sw slot obtain ser de where
    fs: "lua_type_of ser = LUA_TFUNCTION" and fd: "lua_type_of de = LUA_TFUNCTION"
    and us: "list_all simple_upvalue (lua_getupvalues ser)"
    and ud: "list_all simple_upvalue (lua_getupvalues de)"
    and bs: "serde = wire ser @ wire de" and len: "length serde \<le> UINT16_MAX"
    unfolding slots_wired_def by blast
  have ls: "length (wire ser) < 2 ^ 32" and ld: "length (wire de) < 2 ^ 32"
    using len bs by (simp_all add: UINT16_MAX_def)
  have second: "(\<exists>w'. loadshared (Suc (Suc n)) H v2 (wire de) = Null w')
                 \<or> (\<exists>w3. loadshared (Suc (Suc n)) H v2 (wire de) = Next w3 [] False)" for v2
    using loadshared_function [OF fd ud ld, of n H v2 "[]"] by auto
  from loadshared_function [OF fs us ls, of n H v "wire de"] second
  show ?thesis unfolding bs by blast
qed

lemma slots_wired_cong: "serde_cache v = serde_cache w \<Longrightarrow> slots_wired v = slots_wired w"
  by (simp add: slots_wired_def)

lemma call_deserialize_returns:
  "call_deserialize H w ser de span p env \<noteq> Diverged"
  "call_deserialize H w ser de span p env \<noteq> OutOfBounds"
  by (auto simp: call_deserialize_def split: sum.splits)

lemma loadclosure_returns: "loadclosure H w p env \<noteq> Diverged"
  by (auto simp: loadclosure_def Let_def split: option.splits sum.splits prod.splits)


lemma loadsharedimpl_returns:
  assumes "slots_wired w" "length p < n"
  shows "loadsharedimpl n H w p env \<noteq> Diverged"
  using assms
proof (induction n arbitrary: w p env)
  case 0
  then show ?case by simp
next
  case (Suc n)
  note IH = Suc.IH and prems = Suc.prems
  have loop: "loadupvalues_loop n H v q e count \<noteq> Diverged"
    if "slots_wired v" "length q < n" for v q e count
    using that
  proof (induction count arbitrary: v q e)
    case 0
    then show ?case by (simp add: loadupvalues_loop.simps)
  next
    case (Suc count)
    show ?case
    proof (cases "loadsharedimpl n H v q e")
      case (Next v1 q1 e1)
      from loadsharedimpl_next [OF Next] have "length q1 < length q" "serde_cache v1 = serde_cache v"
        by auto
      then have "slots_wired v1" "length q1 < n"
        using Suc.prems by (simp_all add: slots_wired_def)
      from Suc.IH [OF this] show ?thesis by (simp add: loadupvalues_loop.simps Next)
    next
      case Diverged
      with IH [OF Suc.prems] show ?thesis by simp
    qed (simp_all add: loadupvalues_loop.simps)
  qed
  show ?case
  proof (cases p)
    case Nil
    then show ?thesis by (simp add: loadsharedimpl_Nil)
  next
    case (Cons t p1)
    have lp1: "length p1 \<le> n" using prems Cons by simp
    consider (neg) "sint t < 0" | (env) "t = SERDE_ENV" | (nil) "t = SERDE_NIL"
      | (bool) "t = SERDE_BOOLEAN" | (lud) "t = SERDE_LIGHTUSERDATA" | (num) "t = SERDE_NUMBER"
      | (int) "t = SERDE_INTEGER" | (str) "t = SERDE_STRING"
      | (lcl) "t = SERDE_LCLOSURE" | (ccl) "t = SERDE_CCLOSURE"
      | (custom) "\<not> sint t < 0" "t \<notin> {SERDE_ENV, SERDE_NIL, SERDE_BOOLEAN, SERDE_LIGHTUSERDATA,
                       SERDE_NUMBER, SERDE_INTEGER, SERDE_STRING, SERDE_LCLOSURE, SERDE_CCLOSURE}"
      by blast
    then show ?thesis unfolding Cons
    proof cases
      case neg
      then show "loadsharedimpl (Suc n) H w (t # p1) env \<noteq> Diverged"
        by (simp add: loadsharedimpl_negative)
    next
      case env
      then show "loadsharedimpl (Suc n) H w (t # p1) env \<noteq> Diverged"
        by (simp add: loadsharedimpl_env)
    next
      case nil
      then show "loadsharedimpl (Suc n) H w (t # p1) env \<noteq> Diverged"
        by (simp add: loadsharedimpl_nil)
    next
      case bool
      then show "loadsharedimpl (Suc n) H w (t # p1) env \<noteq> Diverged"
        by (simp add: loadsharedimpl_boolean split: option.splits)
    next
      case lud
      then show "loadsharedimpl (Suc n) H w (t # p1) env \<noteq> Diverged"
        by (simp add: loadsharedimpl_lightuserdata split: option.splits)
    next
      case num
      then show "loadsharedimpl (Suc n) H w (t # p1) env \<noteq> Diverged"
        by (simp add: loadsharedimpl_number split: option.splits)
    next
      case int
      then show "loadsharedimpl (Suc n) H w (t # p1) env \<noteq> Diverged"
        by (simp add: loadsharedimpl_integer split: option.splits)
    next
      case str
      then show "loadsharedimpl (Suc n) H w (t # p1) env \<noteq> Diverged"
        by (simp add: loadsharedimpl_string split: option.splits)
    next
      case lcl
      have "loadupvalues_loop n H w p2 False k \<noteq> Diverged"
        if "consume p1 SIZEOF_UNSIGNED = Some (p2, bs)" for p2 bs k
      proof -
        have "length p2 < n" using that lp1
          by (auto simp: consume_Some SIZEOF_UNSIGNED_def)
        with prems(1) show ?thesis by (rule loop)
      qed
      then show "loadsharedimpl (Suc n) H w (t # p1) env \<noteq> Diverged"
        using loadclosure_returns
        by (auto simp: loadsharedimpl_lclosure lcl split: option.splits load.splits)
    next
      case ccl
      have "loadupvalues_loop n H w p2 False k \<noteq> Diverged"
        if "consume p1 SIZEOF_UNSIGNED = Some (p2, bs)" for p2 bs k
      proof -
        have "length p2 < n" using that lp1
          by (auto simp: consume_Some SIZEOF_UNSIGNED_def)
        with prems(1) show ?thesis by (rule loop)
      qed
      then show "loadsharedimpl (Suc n) H w (t # p1) env \<noteq> Diverged"
        by (auto simp: loadsharedimpl_cclosure ccl split: option.splits load.splits)
    next
      case custom
      show "loadsharedimpl (Suc n) H w (t # p1) env \<noteq> Diverged"
      proof (cases "consume p1 SIZEOF_SIZE_T")
        case None
        then show ?thesis by (simp add: loadsharedimpl_custom [OF custom])
      next
        case (Some a)
        obtain p2 bs where a: "a = (p2, bs)" by (cases a)
        have "8 \<le> length p1" using Some a by (auto simp: consume_Some SIZEOF_SIZE_T_def)
        then obtain m where n: "n = Suc (Suc m)" using lp1
          by (cases n; cases "n - 1") auto
        define span where "span = take (le_nat bs) p2"
        define w1 where "w1 = lua_push w (LStream span)"
        define v where "v = lua_push (lua_push w1 LCache) (LSerde LNil LNil)"
        show ?thesis
        proof (cases "serde_cache w1 (nat (sint t) - unat SERDE_CUSTOM)")
          case None
          then show ?thesis
            using call_deserialize_returns(1)
            by (auto simp: loadsharedimpl_custom [OF custom] Some a Let_def span_def w1_def
                  split: option.splits)
        next
          case slot: (Some serde)
          have sw: "slots_wired w1" using prems(1) by (simp add: slots_wired_def w1_def lua_push_def)
          note eq = loadsharedimpl_custom [OF custom, of n H w p1 env, unfolded Some a,
                      simplified, unfolded Let_def, folded span_def, folded w1_def, folded v_def]
          from slot_decodes [OF sw slot, of m H v]
          consider (n1) w' where "loadshared n H v serde = Null w'"
            | (n2) w2 serde1 w' where "loadshared n H v serde = Next w2 serde1 False"
                "loadshared n H w2 serde1 = Null w'"
            | (n3) w2 serde1 w3 where "loadshared n H v serde = Next w2 serde1 False"
                "loadshared n H w2 serde1 = Next w3 [] False"
            unfolding n by blast
          then show ?thesis
          proof cases
            case n1
            then show ?thesis
              using call_deserialize_returns(1)
              by (simp add: eq slot split: option.splits)
          next
            case n2
            then show ?thesis
              using call_deserialize_returns(1)
              by (simp add: eq slot split: option.splits)
          next
            case n3
            then show ?thesis
              using call_deserialize_returns(1)
              by (simp add: eq slot Let_def split: option.splits)
          qed
        qed
      qed
    qed
  qed
qed

lemma loadshared_returns:
  assumes "slots_wired w" "length p < n"
  shows "loadshared n H w p \<noteq> Diverged"
  using loadsharedimpl_returns [OF assms, of H "junk_env H"]
  by (cases n) (auto simp: loadshared.simps split: load.splits)

lemma custom_tag:
  assumes "sint SERDE_CUSTOM \<le> sint t"
  shows "\<not> sint t < 0"
    and "t \<notin> {SERDE_ENV, SERDE_NIL, SERDE_BOOLEAN, SERDE_LIGHTUSERDATA, SERDE_NUMBER,
               SERDE_INTEGER, SERDE_STRING, SERDE_LCLOSURE, SERDE_CCLOSURE}"
  using assms by (auto simp: serde_codes)

lemma loadshared_deserialize_raises:
  assumes t: "sint SERDE_CUSTOM \<le> sint t"
    and l: "length span < 2 ^ 64"
    and f: "fmemopen_ok H (length span)"
    and r: "map_of (registry w) t = Some (ser, de)"
    and e: "de_run H de span = Inl err"
  shows "loadshared (Suc n) H w (t # le_bytes SIZEOF_SIZE_T (length span) @ span @ rest)
           = Null (w\<lparr>stack := stack w @ [LSerde ser de, err]\<rparr>)"
proof -
  have len: "le_nat (le_bytes SIZEOF_SIZE_T (length span)) = length span"
    using l by (simp add: le_nat_le_bytes SIZEOF_SIZE_T_def)
  show ?thesis
    using f r e
    by (simp add: loadshared.simps loadsharedimpl_custom [OF custom_tag [OF t]] len
          call_deserialize_def lua_push_def)
qed

lemma slots_wired_registered:
  assumes "n \<le> 256"
  shows "slots_wired (registered n)"
proof -
  have inv: "registered_inv n (registered n)" by (rule registered_inv [OF assms])
  have "\<exists>ser de. lua_type_of ser = LUA_TFUNCTION \<and> lua_type_of de = LUA_TFUNCTION \<and>
           list_all simple_upvalue (lua_getupvalues ser) \<and>
           list_all simple_upvalue (lua_getupvalues de) \<and>
           custom_key i = wire ser @ wire de \<and> length (custom_key i) \<le> UINT16_MAX" for i
    by (rule exI [of _ "custom_ser i"], rule exI [of _ "custom_de i"])
       (simp add: custom_key_def custom_ser_def custom_de_def UINT16_MAX_def wire_upvalues_def
          SIZEOF_UNSIGNED_def SIZEOF_POINTER_def)
  then show ?thesis
    using inv by (auto simp: slots_wired_def registered_inv_def split: if_splits)
qed

section \<open>The slots stay encodings of function pairs\<close>

text \<open>
  Resolving a pair of functions with \<^verbatim>\<open>cache_serde\<close> keeps every slot the encoding
  of a pair of functions of at most \<^verbatim>\<open>UINT16_MAX\<close> bytes: a key is stored only behind
  the length check.  The initial state has no slot.
\<close>

lemma slots_wired_W0: "slots_wired W0"
  by (simp add: slots_wired_def W0_def)

lemma slots_wired_live [simp]: "slots_wired (w\<lparr>live := k\<rparr>) = slots_wired w"
  by (simp add: slots_wired_def)

lemma slots_wired_registry [simp]: "slots_wired (w\<lparr>registry := r\<rparr>) = slots_wired w"
  by (simp add: slots_wired_def)

lemma slots_wired_free_block [simp]: "slots_wired (free_block w p) = slots_wired w"
  by (simp add: free_block_def)

lemma slots_wired_store:
  assumes "slots_wired w"
    and "lua_type_of ser = LUA_TFUNCTION" "lua_type_of de = LUA_TFUNCTION"
    and "list_all simple_upvalue (lua_getupvalues ser)"
    and "list_all simple_upvalue (lua_getupvalues de)"
    and "length (wire ser @ wire de) \<le> UINT16_MAX"
  shows "slots_wired (w\<lparr>serde_cache := (serde_cache w)(i := Some (wire ser @ wire de))\<rparr>)"
  using assms unfolding slots_wired_def by (auto simp del: length_append)

lemma cache_serde_publish_slots_wired:
  assumes sw: "slots_wired w"
    and fs: "lua_type_of ser = LUA_TFUNCTION" and fd: "lua_type_of de = LUA_TFUNCTION"
    and us: "list_all simple_upvalue (lua_getupvalues ser)"
    and ud: "list_all simple_upvalue (lua_getupvalues de)"
    and sb: "used sb = wire ser @ wire de"
  shows "slots_wired (snd (cache_serde_publish H w ser de sb))"
proof (cases "length (used sb) \<le> UINT16_MAX")
  case False
  then show ?thesis
    using sw by (simp add: cache_serde_publish_def serdebuf_finalize_def Let_def serdebuf_size_used)
next
  case True
  then have l: "length (wire ser @ wire de) \<le> UINT16_MAX" using sb by simp
  note st = slots_wired_store [OF sw fs fd us ud l, of "serde_cache_len w"]
  have st': "slots_wired (w\<lparr>serde_cache := (serde_cache w)(serde_cache_len w := Some (used sb))\<rparr>)"
    using st sb by simp
  have st'': "slots_wired (w\<lparr>serde_cache := (serde_cache w)(serde_cache_len w := Some (used sb)),
                 serde_cache_types := m, serde_cache_len := k\<rparr>)" for m k
    using st' by (simp add: slots_wired_def)
  have st0: "slots_wired (w\<lparr>serde_cache := (serde_cache w)(serde_cache_len w := None)\<rparr>)"
    using sw by (simp add: slots_wired_def)
  show ?thesis
    using sw st' st'' st0 True
    by (auto simp: cache_serde_publish_def serdebuf_finalize_def Let_def serdebuf_size_used
          split: option.splits)
qed

lemma cache_serde_slots_wired:
  assumes gs: "getserdemethods v = Some (ser, de)"
    and fs: "lua_type_of ser = LUA_TFUNCTION" and fd: "lua_type_of de = LUA_TFUNCTION"
    and sw: "slots_wired w"
  shows "slots_wired (snd (cache_serde H w v))"
proof (cases "registry_scan (registry w) ser de")
  case (Some t)
  then show ?thesis using gs sw by (simp add: cache_serde.simps)
next
  case None
  from cache_serde_slow [OF gs fs fd None, of H]
  consider (a) e where "cache_serde H w v = (Inl e, w)"
    | (b) e where "cache_serde H w v = (Inl e, w\<lparr>live := live w + 1\<rparr>)"
    | (c) sb where "used sb = wire ser @ wire de"
        "list_all simple_upvalue (lua_getupvalues ser)"
        "list_all simple_upvalue (lua_getupvalues de)"
        "cache_serde H w v = cache_serde_publish H (w\<lparr>live := live w + 1\<rparr>) ser de sb"
    by blast
  then show ?thesis
  proof cases
    case a
    then show ?thesis using sw by simp
  next
    case b
    then show ?thesis using sw by simp
  next
    case c
    have "slots_wired (w\<lparr>live := live w + 1\<rparr>)" using sw by simp
    from cache_serde_publish_slots_wired [OF this fs fd c(2) c(3) c(1), of H]
    show ?thesis unfolding c(4) .
  qed
qed

section \<open>The registry table along a run\<close>


lemma table_grows_refl [simp]: "table_grows w w"
  by (simp add: table_grows_def)













lemma evolves_refl [simp]: "evolves ser de w w"
  by (simp add: evolves_def)



























section \<open>Encoding and decoding a scalar\<close>

text \<open>
  A nil, a boolean, a pointer, a number or a string comes back from its encoding,
  with the pointer behind the bytes read, when the flag that \<^verbatim>\<open>loadshared\<close> tests
  at its end holds \<open>false\<close>: it is a local that nothing has assigned when the value
  is not an environment marker.
\<close>

lemma loadshared_scalar:
  assumes "lua_type_of v \<in> {LUA_TNIL, LUA_TBOOLEAN, LUA_TLIGHTUSERDATA, LUA_TNUMBER, LUA_TSTRING}"
    and "length (wire_scalar v) < 2 ^ 64"
  shows "loadshared (Suc n) H w (wire_scalar v @ rest)
           = (if junk_env H then Null (lua_push w v) else Next (lua_push w v) rest False)"
  by (simp add: loadshared.simps loadsharedimpl_scalar [OF assms])

lemma serialize_scalar:
  assumes s: "serialize H w v = (Inr (pointer, bytes), w')"
    and t: "lua_type_of v \<in> {LUA_TNIL, LUA_TBOOLEAN, LUA_TLIGHTUSERDATA, LUA_TNUMBER, LUA_TSTRING}"
  shows "bytes = wire_scalar v"
proof -
  from s obtain sb w0 where i: "serdebuf_init H w v = (Inr sb, w0)"
    by (auto simp: serialize_def split: prod.splits sum.splits)
  then have u: "used sb = []"
    by (auto simp: serdebuf_init_def Let_def split: if_splits)
  from s i obtain sb1 t1 w1 where e: "serdebuf_serialize H w0 v sb SERDE_ANY = (Inr (sb1, t1), w1)"
    by (auto simp: serialize_def split: prod.splits sum.splits)
  from serdebuf_serialize_scalar [OF e t] u have u1: "used sb1 = wire_scalar v" by simp
  from s i e have "bytes = used sb1"
    by (auto simp: serialize_def serdebuf_finalize_def Let_def split: if_splits prod.splits)
  with u1 show ?thesis by simp
qed

lemma scalar_round_trip:
  assumes s: "serialize H w v = (Inr (pointer, bytes), w')"
    and t: "lua_type_of v \<in> {LUA_TNIL, LUA_TBOOLEAN, LUA_TLIGHTUSERDATA, LUA_TNUMBER, LUA_TSTRING}"
    and l: "length (wire_scalar v) < 2 ^ 64"
    and e: "\<not> junk_env H"
  shows "loadshared (Suc n) H w' bytes = Next (lua_push w' v) [] False"
  using loadshared_scalar [OF t l, of n H w' "[]"] e
  unfolding serialize_scalar [OF s t] by simp

section \<open>Encoding and decoding a C closure\<close>

text \<open>
  Claim C1 does not hold of the code for a C closure that has an upvalue.  The
  encoder writes the upvalue and the function pointer.  The decoder pushes the
  upvalue, then the function with \<^verbatim>\<open>lua_pushcfunction\<close>, which makes a function that
  has no upvalue to assign to: \<^verbatim>\<open>lua_setupvalue\<close> leaves the copy of the upvalue on
  the stack, above the function, and \<^verbatim>\<open>lua_insert\<close> and \<^verbatim>\<open>lua_settop\<close> then keep that
  copy and drop the function.  Decoding the encoding of a C closure over the
  integer 7 gives the integer 7.
\<close>

theorem cclosure_round_trip:
  "serialize H0 W0 (LCClosure 5 4660 [LInteger 7])
     = (Inr (8192, wire (LCClosure 5 4660 [LInteger 7])), W0\<lparr>live := 1\<rparr>)
   \<and> loadshared 2 H0 (W0\<lparr>live := 1\<rparr>) (wire (LCClosure 5 4660 [LInteger 7]))
     = Next (W0\<lparr>live := 1, stack := [LInteger 7]\<rparr>) [] False"
proof -
  have two: "(2::nat) = Suc (Suc 0)" by simp
  have "serialize H0 W0 (LCClosure 5 4660 [LInteger 7])
     = (Inr (8192, wire (LCClosure 5 4660 [LInteger 7])), W0\<lparr>live := 1\<rparr>)"
    by (simp add: enc_eval H0_def W0_def wire_upvalues_def wire_upvalue_def)
  moreover
  have "loadshared 2 H0 (W0\<lparr>live := 1\<rparr>) (wire (LCClosure 5 4660 [LInteger 7]))
     = Next (W0\<lparr>live := 1, stack := [LInteger 7]\<rparr>) [] False"
    unfolding two
    by (simp add: dec_eval H0_def W0_def wire_upvalues_def wire_upvalue_def)
  ultimately show ?thesis by (rule conjI)
qed

text \<open>
  A Lua closure whose first upvalue is not the environment.  Here the closure has
  the upvalues \<open>x\<close>, holding 5, and \<^verbatim>\<open>_ENV\<close>, in this order, and the chunk loaded from
  its bytecode has the same two.  \<^verbatim>\<open>lua_load\<close> sets the first upvalue of the new
  function to the globals, and \<^verbatim>\<open>setupvalues\<close>, told that an environment marker
  was read, skips the first upvalue instead of the second: the decoded closure
  has the globals as \<open>x\<close> and 5 as its environment.
\<close>

lemma lclosure_env_second:
  "serialize H0 W0 (LLClosure 2 [[1]] [(''x'', LInteger 5), (''_ENV'', globals W0)])
     = (Inr (8192, wire (LLClosure 2 [[1]] [(''x'', LInteger 5), (''_ENV'', globals W0)])),
        W0\<lparr>live := 1\<rparr>)
   \<and> loadshared 2 (H0\<lparr>undump := \<lambda>bs. Inr ([bs], [''x'', ''_ENV''])\<rparr>) (W0\<lparr>live := 1\<rparr>)
        (wire (LLClosure 2 [[1]] [(''x'', LInteger 5), (''_ENV'', globals W0)]))
     = Next (W0\<lparr>live := 1, next_id := 2,
                stack := [LLClosure 1 [[1]] [(''x'', globals W0), (''_ENV'', LInteger 5)]]\<rparr>) [] False"
proof -
  have two: "(2::nat) = Suc (Suc 0)" by simp
  have "serialize H0 W0 (LLClosure 2 [[1]] [(''x'', LInteger 5), (''_ENV'', globals W0)])
     = (Inr (8192, wire (LLClosure 2 [[1]] [(''x'', LInteger 5), (''_ENV'', globals W0)])),
        W0\<lparr>live := 1\<rparr>)"
    by (simp add: enc_eval H0_def W0_def wire_upvalues_def wire_upvalue_def serdebuf_dump_def
          dump_writes.simps)
  moreover
  have "loadshared 2 (H0\<lparr>undump := \<lambda>bs. Inr ([bs], [''x'', ''_ENV''])\<rparr>) (W0\<lparr>live := 1\<rparr>)
        (wire (LLClosure 2 [[1]] [(''x'', LInteger 5), (''_ENV'', globals W0)]))
     = Next (W0\<lparr>live := 1, next_id := 2,
                stack := [LLClosure 1 [[1]] [(''x'', globals W0), (''_ENV'', LInteger 5)]]\<rparr>) [] False"
    unfolding two
    by (simp add: dec_eval H0_def W0_def wire_upvalues_def wire_upvalue_def)
  ultimately show ?thesis by (rule conjI)
qed

section \<open>The pointer the decoder returns\<close>

text \<open>
  The decoder is given a pointer and no length, so it cannot tell where a buffer
  ends: on the encoding of the integer 42 it pushes the integer, and on the same
  bytes without the last one it copies 8 bytes where 7 are left.
\<close>

lemma truncated_buffer_read:
  "loadshared 2 H0 W0 (wire (LInteger 42)) = Next (lua_push W0 (LInteger 42)) [] False
   \<and> loadshared 2 H0 W0 (butlast (wire (LInteger 42))) = OutOfBounds"
proof -
  have two: "(2::nat) = Suc (Suc 0)" by simp
  show ?thesis
    unfolding two by (simp add: dec_eval H0_def W0_def)
qed

text \<open>The state after the first pair of the family has been resolved.\<close>

lemma registered_1: "registry (registered (Suc 0)) = [(custom_type_code 0, custom_ser 0, custom_de 0)]"
  "stack (registered (Suc 0)) = []"
proof -
  have "registered_inv (Suc 0) (registered (Suc 0))" by (rule registered_inv) simp
  then show "registry (registered (Suc 0)) = [(custom_type_code 0, custom_ser 0, custom_de 0)]"
    "stack (registered (Suc 0)) = []"
    by (simp_all add: registered_inv_def)
qed

text \<open>
  Claim C2 does not hold of the code.  The branch of \<^verbatim>\<open>loadsharedimpl\<close> for a custom
  type reads the size, hands the payload to the \<^verbatim>\<open>deserialize\<close> function through a
  stream, and ends with \<^verbatim>\<open>return (p)\<close> where \<open>p\<close> is still the pointer behind the size
  field; the branches for a string and for a closure return the pointer behind
  what they have read.  Below, the string of the bytes 1, 2, 3 and a value of a
  registered custom type with the same three bytes as payload are each followed
  by the tag of nil: for the string the pointer returned is at that tag, for the
  custom value it is at the payload.  The same branch looks up a type that the
  registry table does not hold in the slot array and hands the entry to
  \<^verbatim>\<open>loadshared\<close> without a look at it: for the first custom type code in a process
  where no pair has been resolved the entry is \<^verbatim>\<open>NULL\<close>, and the decoder reads through
  it instead of returning \<^verbatim>\<open>NULL\<close>.  (The \<^verbatim>\<open>deserialize\<close> function of the host \<open>H0\<close>
  returns its payload as a string.)
\<close>

theorem loadshared_custom_pointer:
  "loadshared 2 H0 W0 (SERDE_STRING # le_bytes SIZEOF_SIZE_T 3 @ [1, 2, 3] @ [SERDE_NIL])
     = Next (lua_push W0 (LString [1, 2, 3])) [SERDE_NIL] False
   \<and> map_of (registry (registered (Suc 0))) (custom_type_code 0) = Some (custom_ser 0, custom_de 0)
   \<and> loadshared 2 H0 (registered (Suc 0))
         (custom_type_code 0 # le_bytes SIZEOF_SIZE_T 3 @ [1, 2, 3] @ [SERDE_NIL])
     = Next (lua_push (registered (Suc 0)) (LString [1, 2, 3])) ([1, 2, 3] @ [SERDE_NIL]) False
   \<and> map_of (registry W0) SERDE_CUSTOM = None
   \<and> serde_cache W0 (nat (sint SERDE_CUSTOM) - unat SERDE_CUSTOM) = None
   \<and> loadshared 2 H0 W0 (SERDE_CUSTOM # le_bytes SIZEOF_SIZE_T 3 @ [1, 2, 3]) = OutOfBounds"
proof -
  have two: "(2::nat) = Suc (Suc 0)" by simp
  have c0: "custom_type_code 0 = 9" by (simp add: custom_type_code_def SERDE_CUSTOM_def)
  have a: "loadshared 2 H0 W0 (SERDE_STRING # le_bytes SIZEOF_SIZE_T 3 @ [1, 2, 3] @ [SERDE_NIL])
     = Next (lua_push W0 (LString [1, 2, 3])) [SERDE_NIL] False"
    unfolding two by (simp add: dec_eval H0_def W0_def)
  have b: "map_of (registry (registered (Suc 0))) (custom_type_code 0) = Some (custom_ser 0, custom_de 0)"
    by (simp add: registered_1)
  have c: "loadshared 2 H0 (registered (Suc 0))
         (custom_type_code 0 # le_bytes SIZEOF_SIZE_T 3 @ [1, 2, 3] @ [SERDE_NIL])
     = Next (lua_push (registered (Suc 0)) (LString [1, 2, 3])) ([1, 2, 3] @ [SERDE_NIL]) False"
    unfolding two c0 using b [unfolded c0]
    by (simp add: dec_eval H0_def registered_1)
  have d: "map_of (registry W0) SERDE_CUSTOM = None" by (simp add: W0_def)
  have e: "serde_cache W0 (nat (sint SERDE_CUSTOM) - unat SERDE_CUSTOM) = None"
    by (simp add: W0_def)
  have f: "loadshared 2 H0 W0 (SERDE_CUSTOM # le_bytes SIZEOF_SIZE_T 3 @ [1, 2, 3]) = OutOfBounds"
    unfolding two by (simp add: dec_eval H0_def W0_def)
  from a b c d e f show ?thesis by blast
qed

section \<open>A full slot array\<close>

text \<open>
  Claim C3 does not hold of the code.  After 256 pairs have been registered the
  slot array is full.  Resolving one more pair stores its key at index 256, one
  past the last entry of the array, counts it, and returns a type code instead of
  an error: \<^verbatim>\<open>cache_serde\<close> never compares \<^verbatim>\<open>serde_cache_len\<close> with the capacity.
\<close>

theorem slot_array_overrun:
  "serde_cache_len (registered 256) = SERDE_CACHE_CAPACITY
   \<and> serde_cache_types (registered 256) (custom_key 256) = None
   \<and> fst (cache_serde H0 (registered 256) (custom_value 256)) = Inr (custom_type_code 256)
   \<and> serde_cache (snd (cache_serde H0 (registered 256) (custom_value 256))) SERDE_CACHE_CAPACITY
        = Some (custom_key 256)
   \<and> serde_cache_len (snd (cache_serde H0 (registered 256) (custom_value 256)))
        = SERDE_CACHE_CAPACITY + 1"
proof -
  have inv: "registered_inv 256 (registered 256)" by (rule registered_inv) simp
  have c: "SERDE_CACHE_CAPACITY = 256"
    by (simp add: SERDE_CACHE_CAPACITY_def SERDE_TYPE_CODE_MAX_def SIZEOF_TYPE_CODE_def)
  show ?thesis
    using inv unfolding registered_step [OF inv order_refl] c
    by (simp add: registered_inv_def)
qed

section \<open>Resolving the same pair again\<close>




section \<open>A closure that cannot be encoded\<close>

text \<open>
  A closure that has an upvalue other than the environment whose value is a
  function, a table, a userdata or a thread, given to \<^verbatim>\<open>serialize\<close> of \<^verbatim>\<open>shared.c\<close>:
  the call fails, with \<^verbatim>\<open>EINVAL\<close> unless the host ran out of memory first, and the
  state is as before, so the buffer has been freed.
\<close>

lemma serialize_closure_rejected:
  assumes f: "lua_type_of v = LUA_TFUNCTION"
    and u: "\<not> list_all simple_upvalue (lua_getupvalues v)"
  shows "\<exists>e. serialize H w v = (Inl e, w) \<and> (e = EINVAL \<or> enomem H e)"
proof (cases "serdebuf_init H w v")
  case (Pair r0 w0)
  have t: "serde_type v \<noteq> SERDE_INVALID"
    using f by (simp add: serde_type_function serde_codes)
  show ?thesis
  proof (cases r0)
    case (Inl e)
    with Pair t have "w0 = w" "e = ENOMEM" "\<not> never_fails H"
      by (auto simp: serdebuf_init_def Let_def never_fails_def split: if_splits)
    then show ?thesis using Pair Inl by (simp add: serialize_def enomem_def)
  next
    case (Inr sb)
    with Pair t have w0: "w0 = w\<lparr>live := live w + 1\<rparr>" and b: "buf sb \<noteq> 0"
      by (auto simp: serdebuf_init_def Let_def split: if_splits)
    obtain r w1 where s: "serdebuf_serialize H w0 v sb SERDE_ANY = (r, w1)"
      by (cases "serdebuf_serialize H w0 v sb SERDE_ANY")
    from serdebuf_serialize_function [OF s f] u
    obtain e where r: "r = Inl e" and w1: "w1 = w0" and e: "enomem H e \<or> e = EINVAL"
      by (cases r) auto
    have "serdebuf_destroy w1 sb = w"
      using b by (simp add: serdebuf_destroy_def free_block_def w1 w0)
    then show ?thesis
      using Pair Inr s r e by (auto simp: serialize_def)
  qed
qed

text \<open>
  Claim C5 does not hold of the code where the closure is encoded by
  \<^verbatim>\<open>cache_serde\<close>.  Take a table whose metatable has as \<^verbatim>\<open>serialize\<close> a Lua closure
  over a table and as \<^verbatim>\<open>deserialize\<close> a C function.  \<^verbatim>\<open>cache_serde\<close> allocates a
  buffer of its own for the key of the pair, the encoder refuses the closure with
  \<^verbatim>\<open>EINVAL\<close>, and \<^verbatim>\<open>cache_serde\<close> returns that error with its buffer still allocated:
  after the call one more block is live than before, also when the call was made
  through \<^verbatim>\<open>serialize\<close>, which frees the buffer of its own.
\<close>

theorem cache_serde_keeps_buffer_on_einval:
  "getserdemethods (LTable 1 (LLClosure 2 [[1]] [(''M'', LTable 3 LNil LNil)]) (LCFunction 7))
     = Some (LLClosure 2 [[1]] [(''M'', LTable 3 LNil LNil)], LCFunction 7)
   \<and> lua_getupvalues (LLClosure 2 [[1]] [(''M'', LTable 3 LNil LNil)]) = [(''M'', LTable 3 LNil LNil)]
   \<and> live W0 = 0
   \<and> cache_serde H0 W0 (LTable 1 (LLClosure 2 [[1]] [(''M'', LTable 3 LNil LNil)]) (LCFunction 7))
     = (Inl EINVAL, W0\<lparr>live := 1\<rparr>)
   \<and> serialize H0 W0 (LTable 1 (LLClosure 2 [[1]] [(''M'', LTable 3 LNil LNil)]) (LCFunction 7))
     = (Inl EINVAL, W0\<lparr>live := 1\<rparr>)"
  by (simp add: enc_eval H0_def W0_def)

section \<open>Backpatched length fields\<close>

text \<open>
  Claim C6.  The three fields that are reserved first and written last hold exactly
  what follows them, whatever the allocator does in between.  The upvalue count
  written by \<^verbatim>\<open>serdebuf_serialize_upvalues\<close> is the number of upvalues of the closure,
  and the bytes behind it are the encodings of these upvalues, one after the other.
  The size written by \<^verbatim>\<open>serdebuf_dump\<close> is the number of bytecode bytes behind it,
  which are the chunks \<^verbatim>\<open>lua_dump\<close> produced.  The size written by
  \<^verbatim>\<open>serdebuf_serialize_custom\<close> is the number of bytes behind it, all written by the
  user function.  In each case the bytes written before the call are kept.  The
  fields are 32 and 64 bits wide, so the count is below \<open>2 ^ 32\<close> and the sizes
  below \<open>2 ^ 64\<close>.
\<close>

theorem backpatch_exact:
  "(serdebuf_serialize_upvalues H w v sb = (Inr sb', w') \<longrightarrow>
      length (lua_getupvalues v) < 2 ^ 32 \<longrightarrow>
        take (serdebuf_size sb) (used sb') = used sb \<and>
        field_at SIZEOF_UNSIGNED (serdebuf_size sb) (used sb') = length (lua_getupvalues v) \<and>
        after_field SIZEOF_UNSIGNED (serdebuf_size sb) (used sb')
          = concat (map wire_upvalue (lua_getupvalues v)))
   \<and> (serdebuf_dump H f sbd = Inr sbd' \<longrightarrow> lua_dump f = Some chunks \<longrightarrow>
      length (concat chunks) < 2 ^ 64 \<longrightarrow>
        take (serdebuf_size sbd) (used sbd') = used sbd \<and>
        field_at SIZEOF_SIZE_T (serdebuf_size sbd) (used sbd')
          = length (after_field SIZEOF_SIZE_T (serdebuf_size sbd) (used sbd')) \<and>
        after_field SIZEOF_SIZE_T (serdebuf_size sbd) (used sbd') = concat chunks)
   \<and> (serdebuf_serialize_custom H ser obj sbc = Inr sbc' \<longrightarrow>
      length (used sbc') < 2 ^ 64 \<longrightarrow>
        take (serdebuf_size sbc) (used sbc') = used sbc \<and>
        field_at SIZEOF_SIZE_T (serdebuf_size sbc) (used sbc')
          = length (after_field SIZEOF_SIZE_T (serdebuf_size sbc) (used sbc')))"
proof (intro conjI impI)
  assume a: "serdebuf_serialize_upvalues H w v sb = (Inr sb', w')"
    and n: "length (lua_getupvalues v) < 2 ^ 32"
  from serdebuf_serialize_upvalues_result [OF a]
  have u: "used sb' = used sb @ le_bytes SIZEOF_UNSIGNED (length (lua_getupvalues v))
             @ concat (map wire_upvalue (lua_getupvalues v))"
    by (simp add: wire_upvalues_def)
  show "take (serdebuf_size sb) (used sb') = used sb"
    by (simp add: u serdebuf_size_used)
  show "field_at SIZEOF_UNSIGNED (serdebuf_size sb) (used sb') = length (lua_getupvalues v)"
    using n by (simp add: u serdebuf_size_used field_at_def le_nat_le_bytes SIZEOF_UNSIGNED_def)
  show "after_field SIZEOF_UNSIGNED (serdebuf_size sb) (used sb')
          = concat (map wire_upvalue (lua_getupvalues v))"
    by (simp add: u serdebuf_size_used after_field_def)
next
  assume a: "serdebuf_dump H f sbd = Inr sbd'" and c: "lua_dump f = Some chunks"
    and n: "length (concat chunks) < 2 ^ 64"
  from serdebuf_dump_used [OF a] c
  have u: "used sbd' = used sbd @ le_bytes SIZEOF_SIZE_T (length (concat chunks)) @ concat chunks"
    by simp
  show "take (serdebuf_size sbd) (used sbd') = used sbd"
    by (simp add: u serdebuf_size_used)
  show "after_field SIZEOF_SIZE_T (serdebuf_size sbd) (used sbd') = concat chunks"
    by (simp add: u serdebuf_size_used after_field_def)
  then show "field_at SIZEOF_SIZE_T (serdebuf_size sbd) (used sbd')
          = length (after_field SIZEOF_SIZE_T (serdebuf_size sbd) (used sbd'))"
    using n by (simp add: u serdebuf_size_used field_at_def le_nat_le_bytes SIZEOF_SIZE_T_def)
next
  assume a: "serdebuf_serialize_custom H ser obj sbc = Inr sbc'" and n: "length (used sbc') < 2 ^ 64"
  from serdebuf_serialize_custom_used [OF a] obtain blob
    where u: "used sbc' = used sbc @ le_bytes SIZEOF_SIZE_T (length blob) @ blob" ..
  have "length blob < 2 ^ 64" using n u by simp
  then show "field_at SIZEOF_SIZE_T (serdebuf_size sbc) (used sbc')
          = length (after_field SIZEOF_SIZE_T (serdebuf_size sbc) (used sbc'))"
    by (simp add: u serdebuf_size_used field_at_def after_field_def le_nat_le_bytes SIZEOF_SIZE_T_def)
  show "take (serdebuf_size sbc) (used sbc') = used sbc"
    by (simp add: u serdebuf_size_used)
qed

lemmas buf_eval = serdebuf_append_def serdebuf_resize_def serdebuf_size_used serdebuf_roundup_def
  serdebuf_flags_def roundup2_def mempcpy_def store_at_def cur_def placeholder_def
  CK_MD_PAGESIZE_def CK_MD_CACHELINE_def Let_def
  SIZEOF_SIZE_T_def SIZEOF_UNSIGNED_def SIZEOF_POINTER_def SIZEOF_LUA_INTEGER_def
  SIZEOF_LUA_NUMBER_def SIZEOF_BOOL_def SIZEOF_TYPE_CODE_def

lemma w_dump:
   "serdebuf_dump H0 (LLClosure 1 [replicate 100 7, [1, 2]] []) \<lparr>buf = 4096, used = [8], cap = 9\<rparr>
      = Inr \<lparr>buf = 8192, used = [8] @ le_bytes 8 102 @ replicate 100 7 @ [1, 2], cap = 128\<rparr>"
  by (simp add: serdebuf_dump_def buf_eval H0_def)

lemma w_custom:
   "serdebuf_serialize_custom H0 (LCFunction 1) (LTable 1 (LCFunction 1) (LCFunction 2))
        \<lparr>buf = 4096, used = [9], cap = 9\<rparr>
      = Inr \<lparr>buf = 8192, used = [9] @ le_bytes 8 3 @ [1, 2, 3], cap = 64\<rparr>"
  by (simp add: serdebuf_serialize_custom_def buf_eval H0_def)

lemma w_up:
   "serdebuf_serialize_upvalues H0 W0
        (LLClosure 1 [[1, 2]] [(''x'', LInteger 5), (''_ENV'', LTable 0 LNil LNil)])
        \<lparr>buf = 4096, used = [8], cap = 5\<rparr>
      = (Inr \<lparr>buf = 8192, used = [8] @ le_bytes 4 2 @ ([4] @ le_bytes 8 5) @ [0], cap = 64\<rparr>, W0)"
  by (simp add: serdebuf_serialize_upvalues.simps serdebuf_serialize.simps serde_type_encode_def
       serde_type_def serde_codes buf_eval H0_def numeral_2_eq_2 [symmetric])


theorem backpatch_exact_witness:
  "serdebuf_serialize_upvalues H0 W0
        (LLClosure 1 [[1, 2]] [(''x'', LInteger 5), (''_ENV'', LTable 0 LNil LNil)])
        \<lparr>buf = 4096, used = [8], cap = 5\<rparr>
      = (Inr \<lparr>buf = 8192, used = [8] @ le_bytes 4 2 @ ([4] @ le_bytes 8 5) @ [0], cap = 64\<rparr>, W0)
   \<and> field_at SIZEOF_UNSIGNED 1 ([8] @ le_bytes 4 2 @ ([4] @ le_bytes 8 5) @ [0]) = 2
   \<and> serdebuf_dump H0 (LLClosure 1 [replicate 100 7, [1, 2]] []) \<lparr>buf = 4096, used = [8], cap = 9\<rparr>
      = Inr \<lparr>buf = 8192, used = [8] @ le_bytes 8 102 @ replicate 100 7 @ [1, 2], cap = 128\<rparr>
   \<and> field_at SIZEOF_SIZE_T 1 ([8] @ le_bytes 8 102 @ replicate 100 7 @ [1, 2]) = 102
   \<and> serdebuf_serialize_custom H0 (LCFunction 1) (LTable 1 (LCFunction 1) (LCFunction 2))
        \<lparr>buf = 4096, used = [9], cap = 9\<rparr>
      = Inr \<lparr>buf = 8192, used = [9] @ le_bytes 8 3 @ [1, 2, 3], cap = 64\<rparr>
   \<and> field_at SIZEOF_SIZE_T 1 ([9] @ le_bytes 8 3 @ [1, 2, 3]) = 3"
proof -
  note t = backpatch_exact [where H = H0 and w = W0
      and v = "LLClosure 1 [[1, 2]] [(''x'', LInteger 5), (''_ENV'', LTable 0 LNil LNil)]"
      and sb = "\<lparr>buf = 4096, used = [8], cap = 5\<rparr>"
      and sb' = "\<lparr>buf = 8192, used = [8] @ le_bytes 4 2 @ ([4] @ le_bytes 8 5) @ [0], cap = 64\<rparr>"
      and w' = W0
      and f = "LLClosure 1 [replicate 100 7, [1, 2]] []"
      and sbd = "\<lparr>buf = 4096, used = [8], cap = 9\<rparr>"
      and sbd' = "\<lparr>buf = 8192, used = [8] @ le_bytes 8 102 @ replicate 100 7 @ [1, 2], cap = 128\<rparr>"
      and chunks = "[replicate 100 7, [1, 2]]"
      and ser = "LCFunction 1" and obj = "LTable 1 (LCFunction 1) (LCFunction 2)"
      and sbc = "\<lparr>buf = 4096, used = [9], cap = 9\<rparr>"
      and sbc' = "\<lparr>buf = 8192, used = [9] @ le_bytes 8 3 @ [1, 2, 3], cap = 64\<rparr>"]
  have 1: "field_at SIZEOF_UNSIGNED 1 ([8] @ le_bytes 4 2 @ ([4] @ le_bytes 8 5) @ [0]) = 2"
    using t [THEN conjunct1, rule_format, OF w_up] by (simp add: serdebuf_size_used)
  have 2: "field_at SIZEOF_SIZE_T 1 ([8] @ le_bytes 8 102 @ replicate 100 7 @ [1, 2]) = 102"
    using t [THEN conjunct2, THEN conjunct1, rule_format, OF w_dump]
    by (simp add: serdebuf_size_used after_field_def SIZEOF_SIZE_T_def)
  have 3: "field_at SIZEOF_SIZE_T 1 ([9] @ le_bytes 8 3 @ [1, 2, 3]) = 3"
    using t [THEN conjunct2, THEN conjunct2, rule_format, OF w_custom]
    by (simp add: serdebuf_size_used after_field_def SIZEOF_SIZE_T_def)
  from w_up w_dump w_custom 1 2 3 show ?thesis by blast
qed

section \<open>Growth of the buffer\<close>

text \<open>
  Claim C7.  An append of \<open>len\<close> bytes that succeeds keeps the bytes written before
  as a prefix and adds exactly the new ones, so the used size grows by \<open>len\<close>.  When
  the needed total fits the capacity, the block is not touched.  When it exceeds the
  capacity, the new capacity is the doubled old one, or the needed total when the
  doubled one is too small, rounded up to the next multiple of the page size (from
  one page on) or of the cache line size (below).
\<close>

theorem serdebuf_append_grows:
  assumes "serdebuf_append H sb p = Inr sb'"
  shows "used sb' = used sb @ p \<and>
         serdebuf_size sb' = serdebuf_size sb + length p \<and>
         (serdebuf_size sb + length p \<le> cap sb \<longrightarrow> cap sb' = cap sb \<and> buf sb' = buf sb) \<and>
         (serdebuf_size sb + length p > cap sb \<longrightarrow>
            (let m = (if 2 * cap sb < serdebuf_size sb + length p
                      then serdebuf_size sb + length p else 2 * cap sb);
                 g = (if m \<ge> CK_MD_PAGESIZE then CK_MD_PAGESIZE else CK_MD_CACHELINE)
             in g dvd cap sb' \<and> m \<le> cap sb' \<and> cap sb' < m + g))"
proof -
  have 1: "used sb' = used sb @ p"
    by (rule serdebuf_append_used [OF assms])
  then have 2: "serdebuf_size sb' = serdebuf_size sb + length p"
    by (simp add: serdebuf_size_used)
  have 3: "serdebuf_size sb + length p \<le> cap sb \<longrightarrow> cap sb' = cap sb \<and> buf sb' = buf sb"
    using serdebuf_append_cases(2) [OF assms] by (simp add: serdebuf_size_used)
  have 4: "serdebuf_size sb + length p > cap sb \<longrightarrow>
            (let m = (if 2 * cap sb < serdebuf_size sb + length p
                      then serdebuf_size sb + length p else 2 * cap sb);
                 g = (if m \<ge> CK_MD_PAGESIZE then CK_MD_PAGESIZE else CK_MD_CACHELINE)
             in g dvd cap sb' \<and> m \<le> cap sb' \<and> cap sb' < m + g)"
  proof
    assume gt: "serdebuf_size sb + length p > cap sb"
    define m where "m = (if 2 * cap sb < serdebuf_size sb + length p
                      then serdebuf_size sb + length p else 2 * cap sb)"
    have "cap sb' = serdebuf_roundup m"
      using serdebuf_append_cases(3) [OF assms] gt
      by (simp add: serdebuf_size_used m_def max_def)
    then show "let m = (if 2 * cap sb < serdebuf_size sb + length p
                      then serdebuf_size sb + length p else 2 * cap sb);
                 g = (if m \<ge> CK_MD_PAGESIZE then CK_MD_PAGESIZE else CK_MD_CACHELINE)
             in g dvd cap sb' \<and> m \<le> cap sb' \<and> cap sb' < m + g"
      using serdebuf_roundup_granule [of m] serdebuf_roundup_ge [of m]
      unfolding m_def [symmetric] Let_def by auto
  qed
  from 1 2 3 4 show ?thesis by blast
qed

theorem serdebuf_append_grows_witness:
  "serdebuf_append H0 \<lparr>buf = 4096, used = [1, 2, 3], cap = 3\<rparr> [4, 5, 6, 7, 8, 9, 10, 11]
     = Inr \<lparr>buf = 8192, used = [1, 2, 3, 4, 5, 6, 7, 8, 9, 10, 11], cap = 64\<rparr>
   \<and> used \<lparr>buf = 8192, used = [1, 2, 3, 4, 5, 6, 7, 8, 9, 10, 11], cap = 64\<rparr>
       = used \<lparr>buf = 4096, used = [1, 2, 3], cap = 3\<rparr> @ [4, 5, 6, 7, 8, 9, 10, 11]
   \<and> CK_MD_CACHELINE dvd cap \<lparr>buf = 8192, used = [1, 2, 3, 4, 5, 6, 7, 8, 9, 10, 11], cap = 64\<rparr>"
proof -
  have h: "serdebuf_append H0 \<lparr>buf = 4096, used = [1, 2, 3], cap = 3\<rparr> [4, 5, 6, 7, 8, 9, 10, 11]
     = Inr \<lparr>buf = 8192, used = [1, 2, 3, 4, 5, 6, 7, 8, 9, 10, 11], cap = 64\<rparr>"
    by (simp add: serdebuf_append_def serdebuf_resize_def serdebuf_size_used serdebuf_roundup_def
          serdebuf_flags_def roundup2_def mempcpy_def H0_def CK_MD_PAGESIZE_def CK_MD_CACHELINE_def Let_def)
  show ?thesis
    using h serdebuf_append_grows [OF h]
    by (simp add: serdebuf_size_used CK_MD_PAGESIZE_def CK_MD_CACHELINE_def Let_def)
qed

section \<open>A key that is too long\<close>

text \<open>
  Claim C8.  Let a value carry a pair of functions that the registry of the state
  does not hold yet and that can be encoded (their upvalues are the environment or
  scalars), so that the key of the pair is the wire encoding of the two functions.
  When this key is longer than \<^verbatim>\<open>UINT16_MAX\<close> bytes, \<^verbatim>\<open>cache_serde\<close> returns an
  error and leaves the slot array, its length, the hash table and the registry
  table as they were.  The error is \<^verbatim>\<open>EOVERFLOW\<close>, or \<^verbatim>\<open>ENOMEM\<close> when the host ran out
  of memory on the way; on a host that never does, the result is \<^verbatim>\<open>EOVERFLOW\<close> and
  the whole state is unchanged, the temporary block included: it has been freed.
\<close>


theorem cache_serde_key_too_long:
  assumes gs: "getserdemethods v = Some (ser, de)"
    and fs: "lua_type_of ser = LUA_TFUNCTION" and fd: "lua_type_of de = LUA_TFUNCTION"
    and us: "list_all simple_upvalue (lua_getupvalues ser)"
    and ud: "list_all simple_upvalue (lua_getupvalues de)"
    and miss: "registry_scan (registry w) ser de = None"
    and long: "length (wire ser @ wire de) > UINT16_MAX"
  shows "(\<exists>e w'. cache_serde H w v = (Inl e, w') \<and> (e = EOVERFLOW \<or> enomem H e) \<and>
            serde_cache w' = serde_cache w \<and> serde_cache_len w' = serde_cache_len w \<and>
            serde_cache_types w' = serde_cache_types w \<and> registry w' = registry w)
       \<and> (never_fails H \<longrightarrow> cache_serde H w v = (Inl EOVERFLOW, w))"
proof -
  from cache_serde_slow [OF gs fs fd miss, of H]
  consider (a) e where "cache_serde H w v = (Inl e, w)" "enomem H e"
    | (b) e where "cache_serde H w v = (Inl e, w\<lparr>live := live w + 1\<rparr>)" "enomem H e"
    | (c) sb where "used sb = wire ser @ wire de"
        "cache_serde H w v = cache_serde_publish H (w\<lparr>live := live w + 1\<rparr>) ser de sb"
    using us ud by blast
  then show ?thesis
  proof cases
    case a
    then show ?thesis by (auto simp: enomem_def)
  next
    case b
    then show ?thesis by (auto simp: enomem_def)
  next
    case c
    have l: "length (used sb) > UINT16_MAX" using long c(1) by simp
    show ?thesis
      unfolding c(2) cache_serde_publish_overflow [OF l]
      by (auto simp: enomem_def never_fails_def)
  qed
qed

theorem cache_serde_key_too_long_witness:
  "getserdemethods (LTable 1 (LLClosure 2 [replicate 65536 0] []) (LCFunction 2))
      = Some (LLClosure 2 [replicate 65536 0] [], LCFunction 2)
   \<and> lua_type_of (LLClosure 2 [replicate 65536 0] []) = LUA_TFUNCTION
   \<and> lua_type_of (LCFunction 2) = LUA_TFUNCTION
   \<and> list_all simple_upvalue (lua_getupvalues (LLClosure 2 [replicate 65536 0] []))
   \<and> list_all simple_upvalue (lua_getupvalues (LCFunction 2))
   \<and> registry_scan (registry W0) (LLClosure 2 [replicate 65536 0] []) (LCFunction 2) = None
   \<and> length (wire (LLClosure 2 [replicate 65536 0] []) @ wire (LCFunction 2)) > UINT16_MAX
   \<and> never_fails H0
   \<and> cache_serde H0 W0 (LTable 1 (LLClosure 2 [replicate 65536 0] []) (LCFunction 2))
        = (Inl EOVERFLOW, W0)"
proof -
  have 1: "getserdemethods (LTable 1 (LLClosure 2 [replicate 65536 0] []) (LCFunction 2))
      = Some (LLClosure 2 [replicate 65536 0] [], LCFunction 2)"
    by (simp add: getserdemethods_def)
  have 2: "lua_type_of (LLClosure 2 [replicate 65536 0] []) = LUA_TFUNCTION" by simp
  have 3: "lua_type_of (LCFunction 2) = LUA_TFUNCTION" by simp
  have 4: "list_all simple_upvalue (lua_getupvalues (LLClosure 2 [replicate 65536 0] []))" by simp
  have 5: "list_all simple_upvalue (lua_getupvalues (LCFunction 2))" by simp
  have 6: "registry_scan (registry W0) (LLClosure 2 [replicate 65536 0] []) (LCFunction 2) = None"
    by (simp add: W0_def)
  have 7: "length (wire (LLClosure 2 [replicate 65536 0] []) @ wire (LCFunction 2)) > UINT16_MAX"
    by (simp add: UINT16_MAX_def wire_upvalues_def)
  from cache_serde_key_too_long [OF 1 2 3 4 5 6 7, of H0] never_fails_H0
  have "cache_serde H0 W0 (LTable 1 (LLClosure 2 [replicate 65536 0] []) (LCFunction 2))
        = (Inl EOVERFLOW, W0)" by blast
  with 1 2 3 4 5 6 7 never_fails_H0 show ?thesis by blast
qed

section \<open>How many custom types there can be\<close>

text \<open>
  Claim C10, as amended.  The type code handed out for slot \<open>i\<close> of the 256-entry
  slot array is \<open>i + SERDE_CUSTOM\<close> converted to a signed byte.  For \<open>i\<close> up to 118 it
  is the number \<open>i + 9\<close>.  For \<open>i\<close> from 119 to 246 it is negative, and the decoder
  returns \<^verbatim>\<open>NULL\<close> on any buffer that starts with it.  For \<open>i\<close> from 247 to 255 it is
  not negative: it wraps around to one of the built-in tags 0 to 8.  So the code
  is a custom type code, at least \<^verbatim>\<open>SERDE_CUSTOM\<close>, exactly for the 119 slots 0 to
  118.
\<close>

theorem custom_type_code_usable:
  assumes "i < SERDE_CACHE_CAPACITY"
  shows "fst (cache_serde H0 (registered i) (custom_value i)) = Inr (custom_type_code i)
       \<and> (i \<le> 118 \<longrightarrow> sint (custom_type_code i) = int i + sint SERDE_CUSTOM)
       \<and> (119 \<le> i \<and> i \<le> 246 \<longrightarrow>
            sint (custom_type_code i) < 0 \<and>
            loadshared (Suc n) H w (custom_type_code i # rest)
              = Null (lua_push w (LString (ascii ''invalid type''))))
       \<and> (247 \<le> i \<longrightarrow>
            0 \<le> sint (custom_type_code i) \<and> sint (custom_type_code i) < sint SERDE_CUSTOM)
       \<and> (sint SERDE_CUSTOM \<le> sint (custom_type_code i) \<longleftrightarrow> i \<le> 118)"
proof -
  have i: "i \<le> 255" using assms by (simp add: SERDE_CACHE_CAPACITY_eq)
  have 1: "fst (cache_serde H0 (registered i) (custom_value i)) = Inr (custom_type_code i)"
    using i by (simp add: registered_code)
  have 2: "i \<le> 118 \<longrightarrow> sint (custom_type_code i) = int i + sint SERDE_CUSTOM"
    by (simp add: custom_type_code_ranges sint_SERDE_CUSTOM)
  have 3: "119 \<le> i \<and> i \<le> 246 \<longrightarrow>
            sint (custom_type_code i) < 0 \<and>
            loadshared (Suc n) H w (custom_type_code i # rest)
              = Null (lua_push w (LString (ascii ''invalid type'')))"
  proof
    assume a: "119 \<le> i \<and> i \<le> 246"
    then have "sint (custom_type_code i) < 0" by (simp add: custom_type_code_ranges)
    then show "sint (custom_type_code i) < 0 \<and>
            loadshared (Suc n) H w (custom_type_code i # rest)
              = Null (lua_push w (LString (ascii ''invalid type'')))"
      by (simp only: loadshared_negative_tag simp_thms)
  qed
  have 4: "247 \<le> i \<longrightarrow>
            0 \<le> sint (custom_type_code i) \<and> sint (custom_type_code i) < sint SERDE_CUSTOM"
    using i by (simp add: custom_type_code_ranges sint_SERDE_CUSTOM)
  have 5: "sint SERDE_CUSTOM \<le> sint (custom_type_code i) \<longleftrightarrow> i \<le> 118"
  proof (cases "i \<le> 118")
    case True
    then show ?thesis by (simp add: custom_type_code_ranges sint_SERDE_CUSTOM)
  next
    case False
    show ?thesis
    proof (cases "i \<le> 246")
      case True
      with False show ?thesis by (simp add: custom_type_code_ranges sint_SERDE_CUSTOM)
    next
      case False
      with i show ?thesis by (simp add: custom_type_code_ranges sint_SERDE_CUSTOM)
    qed
  qed
  from 1 2 3 4 5 show ?thesis by blast
qed

theorem custom_type_code_usable_witness:
  "200 < SERDE_CACHE_CAPACITY
   \<and> fst (cache_serde H0 (registered 200) (custom_value 200)) = Inr (custom_type_code 200)
   \<and> sint (custom_type_code 200) < 0
   \<and> loadshared (Suc 0) H0 W0 [custom_type_code 200]
        = Null (lua_push W0 (LString (ascii ''invalid type'')))"
proof -
  have h: "200 < SERDE_CACHE_CAPACITY" by (simp add: SERDE_CACHE_CAPACITY_eq)
  have "119 \<le> (200::nat) \<and> (200::nat) \<le> 246" by simp
  with h custom_type_code_usable [OF h, of 0 H0 W0 "[]"] show ?thesis by blast
qed

text \<open>
  The claim as it was stated says that the code of every slot from 119 on is
  negative.  Slot 247 gets the code 0, the tag of the environment marker.
\<close>

theorem code_of_slot_247_counterexample:
  "(119::nat) \<le> 247 \<and> 247 < SERDE_CACHE_CAPACITY
   \<and> fst (cache_serde H0 (registered 247) (custom_value 247)) = Inr (custom_type_code 247)
   \<and> \<not> sint (custom_type_code 247) < 0
   \<and> custom_type_code 247 = SERDE_ENV"
proof -
  have "custom_type_code 247 = SERDE_ENV"
    by (simp add: custom_type_code_def SERDE_CUSTOM_def SERDE_ENV_def)
  then show ?thesis
    by (simp add: SERDE_CACHE_CAPACITY_eq registered_code SERDE_ENV_def)
qed

end
